theory Spec2Isabelle
  imports Main "HOL-Library.Code_Target_Nat"
begin

section \<open>Host-language values and helpers\<close>

text \<open>
  Every \<^verbatim>\<open>throw\<close> of the sources is a value of \<open>error\<close>: the constructor is the
  exception class, the argument its message.
\<close>

datatype error =
    Error string
  | RingBufferError string
  | BufferError string
  | RangeError string
  | SyntaxError string
  | TypeError string

definition andThen :: "error + 'a \<Rightarrow> ('a \<Rightarrow> error + 'b) \<Rightarrow> error + 'b" where
  "andThen r f = (case r of Inl e \<Rightarrow> Inl e | Inr v \<Rightarrow> f v)"

subsection \<open>Decimal digits\<close>

definition isDigit :: "char \<Rightarrow> bool" where
  \<comment> \<open>the regular expression class \<^verbatim>\<open>\d\<close>: the ten ASCII digits\<close>
  "isDigit c = (let n = (of_char c :: nat) in 48 \<le> n \<and> n \<le> 57)"

definition digitVal :: "char \<Rightarrow> nat" where
  "digitVal c = (of_char c :: nat) - 48"

definition digitChar :: "nat \<Rightarrow> char" where
  "digitChar d = char_of (48 + d)"

fun toString :: "nat \<Rightarrow> string" where
  \<comment> \<open>\<^verbatim>\<open>Number.prototype.toString()\<close> on a non-negative integer\<close>
  "toString n = (if n < 10 then [digitChar n] else toString (n div 10) @ [digitChar (n mod 10)])"

declare toString.simps [simp del]

definition intToString :: "int \<Rightarrow> string" where
  \<comment> \<open>\<^verbatim>\<open>toString()\<close> on any integer\<close>
  "intToString i = (if i < 0 then CHR ''-'' # toString (nat (- i)) else toString (nat i))"

definition parseInt :: "string \<Rightarrow> nat" where
  \<comment> \<open>\<^verbatim>\<open>parseInt(s, 10)\<close> on the digit prefix of \<open>s\<close>. The callers pass non-empty
      substrings of \<^verbatim>\<open>\d+\<close> captures only, so neither white space, a sign nor the
      \<^verbatim>\<open>NaN\<close> of a string without a digit prefix arises.\<close>
  "parseInt s = foldl (\<lambda>a c. 10 * a + digitVal c) 0 (takeWhile isDigit s)"

subsection \<open>String and array methods\<close>

definition padStart :: "string \<Rightarrow> nat \<Rightarrow> char \<Rightarrow> string" where
  "padStart s n c = replicate (n - length s) c @ s"

definition padEnd :: "string \<Rightarrow> nat \<Rightarrow> char \<Rightarrow> string" where
  "padEnd s n c = s @ replicate (n - length s) c"

definition slice :: "'a list \<Rightarrow> int \<Rightarrow> int option \<Rightarrow> 'a list" where
  \<comment> \<open>\<^verbatim>\<open>slice(start, end)\<close> of strings and arrays: a negative index counts from the
      end, both are clamped to the length, \<open>None\<close> is an absent or undefined \<open>end\<close>\<close>
  "slice s start end =
     (let len = int (length s);
          from = (if start < 0 then max (len + start) 0 else min start len);
          to = (case end of None \<Rightarrow> len
                | Some e \<Rightarrow> if e < 0 then max (len + e) 0 else min e len)
      in take (nat (to - from)) (drop (nat from) s))"

definition stripLeadingZeros :: "string \<Rightarrow> string" where
  \<comment> \<open>\<^verbatim>\<open>replace(/^0+/, '')\<close>\<close>
  "stripLeadingZeros s = dropWhile (\<lambda>c. c = CHR ''0'') s"

definition orElse :: "string \<Rightarrow> string \<Rightarrow> string" where
  \<comment> \<open>\<^verbatim>\<open>a || b\<close> on strings: the empty string is falsy\<close>
  "orElse a b = (if a = [] then b else a)"

section \<open>Binary cursor\<close>

text \<open>
  Modelled from the spec: the Binary Cursor (\<^verbatim>\<open>WriteBuffer\<close> and \<^verbatim>\<open>ReadBuffer\<close> of
  \<^verbatim>\<open>../buffer\<close>) is an external collaborator, "sequential write/read of fixed-width
  integers and raw byte ranges over a buffer". A buffer is the list of its bytes, each a
  natural number below 256, integers are big-endian as the wire format fixes. A write
  returns the bytes it appends and fails on a value outside the field's range; a read
  returns the value and the rest of the buffer and fails when the buffer is too short.
\<close>

type_synonym bytes = "nat list"

definition be16 :: "nat \<Rightarrow> bytes" where
  "be16 v = [v div 256 mod 256, v mod 256]"

definition be32 :: "nat \<Rightarrow> bytes" where
  "be32 v = [v div 16777216 mod 256, v div 65536 mod 256, v div 256 mod 256, v mod 256]"

definition writeUInt16 :: "int \<Rightarrow> error + bytes" where
  "writeUInt16 v = (if 0 \<le> v \<and> v \<le> 65535 then Inr (be16 (nat v))
     else Inl (RangeError ''value out of range''))"

definition writeInt16 :: "int \<Rightarrow> error + bytes" where
  "writeInt16 v = (if - 32768 \<le> v \<and> v \<le> 32767 then Inr (be16 (nat (v mod 65536)))
     else Inl (RangeError ''value out of range''))"

definition writeUInt32 :: "int \<Rightarrow> error + bytes" where
  "writeUInt32 v = (if 0 \<le> v \<and> v \<le> 4294967295 then Inr (be32 (nat v))
     else Inl (RangeError ''value out of range''))"

definition writeInt32 :: "int \<Rightarrow> error + bytes" where
  "writeInt32 v = (if - 2147483648 \<le> v \<and> v \<le> 2147483647 then Inr (be32 (nat (v mod 4294967296)))
     else Inl (RangeError ''value out of range''))"

definition overread :: error where
  "overread = BufferError ''buffer overread''"

fun readUInt16 :: "bytes \<Rightarrow> error + nat \<times> bytes" where
  "readUInt16 (a # b # rest) = Inr (a * 256 + b, rest)"
| "readUInt16 _ = Inl overread"

definition readInt16 :: "bytes \<Rightarrow> error + int \<times> bytes" where
  "readInt16 buf = andThen (readUInt16 buf)
     (\<lambda>(u, rest). Inr (if u \<ge> 32768 then int u - 65536 else int u, rest))"

fun readUInt32 :: "bytes \<Rightarrow> error + nat \<times> bytes" where
  "readUInt32 (a # b # c # d # rest) = Inr (((a * 256 + b) * 256 + c) * 256 + d, rest)"
| "readUInt32 _ = Inl overread"

definition readInt32 :: "bytes \<Rightarrow> error + int \<times> bytes" where
  "readInt32 buf = andThen (readUInt32 buf)
     (\<lambda>(u, rest). Inr (if u \<ge> 2147483648 then int u - 4294967296 else int u, rest))"

definition discard :: "nat \<Rightarrow> bytes \<Rightarrow> error + bytes" where
  "discard n buf = (if n \<le> length buf then Inr (drop n buf) else Inl overread)"

definition consumeInto :: "int \<Rightarrow> bytes \<Rightarrow> error + bytes \<times> bytes" where
  \<comment> \<open>the next \<open>n\<close> bytes as a buffer of their own, and the rest\<close>
  "consumeInto n buf =
     (if 0 \<le> n \<and> nat n \<le> length buf then Inr (take (nat n) buf, drop (nat n) buf)
      else Inl overread)"

section \<open>Numeric codecs (src/codecs/numerics.ts)\<close>

definition NUMERIC_POS :: nat where
  "NUMERIC_POS = 0"

definition NUMERIC_NEG :: nat where
  "NUMERIC_NEG = 16384"

subsection \<open>The regular expression \<^verbatim>\<open>/^([+-]?)0*(\d+).(\d+)$/\<close>\<close>

text \<open>
  The matcher follows the backtracking semantics of the pattern, piece by piece, each
  greedy quantifier trying its longest match first and giving characters back one at a
  time. The result is the three capture groups (sign, integer digits, fraction digits).
  The dot matches any character but a line terminator.
\<close>

definition lineTerminator :: "char \<Rightarrow> bool" where
  "lineTerminator c = (c = CHR 0x0A \<or> c = CHR 0x0D)"

definition matchFrac :: "string \<Rightarrow> string option" where
  \<comment> \<open>\<^verbatim>\<open>(\d+)$\<close>\<close>
  "matchFrac s = (if s \<noteq> [] \<and> list_all isDigit s then Some s else None)"

definition matchDot :: "string \<Rightarrow> string option" where
  \<comment> \<open>\<^verbatim>\<open>.(\d+)$\<close>\<close>
  "matchDot s = (case s of [] \<Rightarrow> None
     | c # rest \<Rightarrow> if lineTerminator c then None else matchFrac rest)"

fun tryInt :: "nat \<Rightarrow> string \<Rightarrow> (string \<times> string) option" where
  \<comment> \<open>\<^verbatim>\<open>(\d+)\<close> taking \<open>m\<close> digits, then fewer\<close>
  "tryInt 0 s = None"
| "tryInt (Suc m) s =
     (case matchDot (drop (Suc m) s) of
        Some frac \<Rightarrow> Some (take (Suc m) s, frac)
      | None \<Rightarrow> tryInt m s)"

definition matchInt :: "string \<Rightarrow> (string \<times> string) option" where
  \<comment> \<open>\<^verbatim>\<open>(\d+).(\d+)$\<close>\<close>
  "matchInt s = tryInt (length (takeWhile isDigit s)) s"

fun tryZeros :: "nat \<Rightarrow> string \<Rightarrow> (string \<times> string) option" where
  \<comment> \<open>\<^verbatim>\<open>0*\<close> taking \<open>k\<close> zeros, then fewer\<close>
  "tryZeros 0 s = matchInt s"
| "tryZeros (Suc k) s =
     (case matchInt (drop (Suc k) s) of
        Some r \<Rightarrow> Some r
      | None \<Rightarrow> tryZeros k s)"

definition matchZeros :: "string \<Rightarrow> (string \<times> string) option" where
  \<comment> \<open>\<^verbatim>\<open>0*(\d+).(\d+)$\<close>\<close>
  "matchZeros s = tryZeros (length (takeWhile (\<lambda>c. c = CHR ''0'') s)) s"

definition decimalRegex :: "string \<Rightarrow> (string \<times> string \<times> string) option" where
  \<comment> \<open>\<^verbatim>\<open>object.match(decimalRegex)\<close>: \<open>None\<close> is \<^verbatim>\<open>null\<close>\<close>
  "decimalRegex s =
     (case (case s of
              c # rest \<Rightarrow>
                if c = CHR ''+'' \<or> c = CHR ''-''
                then map_option (Pair [c]) (matchZeros rest) else None
            | [] \<Rightarrow> None) of
        Some r \<Rightarrow> Some r
      | None \<Rightarrow> map_option (Pair []) (matchZeros s))"

subsection \<open>Writing and reading digit groups\<close>

fun writeGroups :: "nat list \<Rightarrow> error + bytes" where
  \<comment> \<open>\<^verbatim>\<open>writeUInt16\<close> of each group in turn\<close>
  "writeGroups [] = Inr []"
| "writeGroups (g # gs) =
     andThen (writeUInt16 (int g)) (\<lambda>b. andThen (writeGroups gs) (\<lambda>bs. Inr (b @ bs)))"

definition writeNumeric :: "int \<Rightarrow> int \<Rightarrow> bool \<Rightarrow> int \<Rightarrow> int \<Rightarrow> int \<Rightarrow> nat list \<Rightarrow> error + bytes" where
  \<comment> \<open>the sequence of writes that ends both encoders: the length, the header of four
      16-bit fields (\<open>weight\<close> signed when \<open>weightSigned\<close>), the groups most
      significant first\<close>
  "writeNumeric len ndigits weightSigned weight sign dscale groups =
     andThen (writeUInt32 len) (\<lambda>b0.
     andThen (writeUInt16 ndigits) (\<lambda>b1.
     andThen (if weightSigned then writeInt16 weight else writeUInt16 weight) (\<lambda>b2.
     andThen (writeUInt16 sign) (\<lambda>b3.
     andThen (writeUInt16 dscale) (\<lambda>b4.
     andThen (writeGroups groups) (\<lambda>b5.
     Inr (b0 @ b1 @ b2 @ b3 @ b4 @ b5)))))))"

subsection \<open>BigIntCodec\<close>

function bigintDigits :: "int \<Rightarrow> int list" where
  \<comment> \<open>\<^verbatim>\<open>while (uval) { digits.push(uval % NBASE); uval /= NBASE }\<close>, least significant
      group first; \<open>uval\<close> is never negative here\<close>
  "bigintDigits uval =
     (if uval \<le> 0 then [] else (uval mod 10000) # bigintDigits (uval div 10000))"
  by pat_completeness auto
termination
  by (relation "measure nat") auto

declare bigintDigits.simps [simp del]

definition BigIntCodec_encode :: "int \<Rightarrow> error + bytes" where
  "BigIntCodec_encode object =
     (if object = 0 then
        andThen (writeUInt32 8) (\<lambda>b0.
        andThen (writeUInt32 0) (\<lambda>b1.
        andThen (writeUInt16 (int NUMERIC_POS)) (\<lambda>b2.
        andThen (writeUInt16 0) (\<lambda>b3.
        Inr (b0 @ b1 @ b2 @ b3)))))
      else
        let sign = (if object < 0 then NUMERIC_NEG else NUMERIC_POS);
            uval = (if object < 0 then - object else object);
            digits = bigintDigits uval
        in writeNumeric (8 + int (length digits) * 2) (int (length digits)) False
             (int (length digits) - 1) (int sign) 0 (map nat (rev digits)))"

function bigintLoop :: "int \<Rightarrow> nat \<Rightarrow> int \<Rightarrow> nat \<Rightarrow> bytes \<Rightarrow> string \<Rightarrow> error + string \<times> bytes" where
  \<comment> \<open>\<^verbatim>\<open>while (i >= 0) { ...; i-- }\<close> of \<^verbatim>\<open>decodeBigIntToString\<close>\<close>
  "bigintLoop weight ndigits i d buf result =
     (if i \<ge> 0 then
        (if i \<le> weight \<and> d < ndigits then
           andThen (readUInt16 buf) (\<lambda>(v, buf').
             let digit = toString v
             in bigintLoop weight ndigits (i - 1) (d + 1) buf'
                  (result @ (if d > 0 then padStart digit 4 CHR ''0'' else digit)))
         else bigintLoop weight ndigits (i - 1) d buf (result @ ''0000''))
      else Inr (result, buf))"
  by pat_completeness auto
termination
  by (relation "measure (\<lambda>(weight, ndigits, i, d, buf, result). nat (i + 1))") auto

declare bigintLoop.simps [simp del]

definition decodeBigIntToString :: "bytes \<Rightarrow> error + string \<times> bytes" where
  "decodeBigIntToString buf =
     andThen (readUInt16 buf) (\<lambda>(ndigits, b1).
     andThen (readInt16 b1) (\<lambda>(weight, b2).
     andThen (readUInt16 b2) (\<lambda>(sign, b3).
     andThen (readUInt16 b3) (\<lambda>(dscale, b4).
       if sign \<noteq> NUMERIC_POS \<and> sign \<noteq> NUMERIC_NEG then Inl (Error ''bad bigint sign data'')
       else
         let result = (if sign = NUMERIC_NEG then ''-'' else '''')
         in if dscale \<noteq> 0 then Inl (Error ''bigint data has fractional part'')
            else if ndigits = 0 then Inr (''0'', b4)
            else bigintLoop weight ndigits weight 0 b4 result))))"

definition BigInt :: "string \<Rightarrow> error + int" where
  \<comment> \<open>the host's \<^verbatim>\<open>BigInt(string)\<close> on what \<^verbatim>\<open>decodeBigIntToString\<close> returns: an
      optional minus sign and decimal digits. The empty string is zero; a lone sign is a
      \<^verbatim>\<open>SyntaxError\<close>, and so is here every string with another character.\<close>
  "BigInt s =
     (if s = [] then Inr 0
      else if list_all isDigit s then Inr (int (parseInt s))
      else if hd s = CHR ''-'' \<and> tl s \<noteq> [] \<and> list_all isDigit (tl s)
        then Inr (- int (parseInt (tl s)))
      else Inl (SyntaxError ''Cannot convert to a BigInt''))"

definition BigIntCodec_decode :: "bytes \<Rightarrow> error + int \<times> bytes" where
  "BigIntCodec_decode buf =
     andThen (decodeBigIntToString buf) (\<lambda>(s, rest).
     andThen (BigInt s) (\<lambda>v. Inr (v, rest)))"

subsection \<open>The string-preserving decimal decoder\<close>

function decimalIntLoop :: "int \<Rightarrow> nat \<Rightarrow> int \<Rightarrow> bytes \<Rightarrow> string \<Rightarrow> error + string \<times> bytes" where
  \<comment> \<open>\<^verbatim>\<open>for (d = 0; d <= weight; d++)\<close> of \<^verbatim>\<open>decodeDecimalToString\<close>\<close>
  "decimalIntLoop weight ndigits d buf result =
     (if d \<le> weight then
        andThen (if d < int ndigits then readUInt16 buf else Inr (0, buf)) (\<lambda>(digit, buf').
          let sdigit = toString digit;
              sdigit = (if d > 0 then padStart sdigit 4 CHR ''0'' else sdigit)
          in decimalIntLoop weight ndigits (d + 1) buf' (result @ sdigit))
      else Inr (result, buf))"
  by pat_completeness auto
termination
  by (relation "measure (\<lambda>(weight, ndigits, d, buf, result). nat (weight + 1 - d))") auto

declare decimalIntLoop.simps [simp del]

function decimalFracLoop :: "nat \<Rightarrow> nat \<Rightarrow> int \<Rightarrow> nat \<Rightarrow> bytes \<Rightarrow> string \<Rightarrow> error + string \<times> bytes" where
  \<comment> \<open>\<^verbatim>\<open>for (let i = 0; i < dscale; d++, i += 4)\<close> of \<^verbatim>\<open>decodeDecimalToString\<close>\<close>
  "decimalFracLoop dscale ndigits d i buf result =
     (if i < dscale then
        andThen (if d \<ge> 0 \<and> d < int ndigits then readUInt16 buf else Inr (0, buf)) (\<lambda>(digit, buf').
          decimalFracLoop dscale ndigits (d + 1) (i + 4) buf'
            (result @ padStart (toString digit) 4 CHR ''0''))
      else Inr (result, buf))"
  by pat_completeness auto
termination
  by (relation "measure (\<lambda>(dscale, ndigits, d, i, buf, result). dscale - i)") auto

declare decimalFracLoop.simps [simp del]

definition decodeDecimalToString :: "bytes \<Rightarrow> error + string \<times> bytes" where
  "decodeDecimalToString buf =
     andThen (readUInt16 buf) (\<lambda>(ndigits, b1).
     andThen (readInt16 b1) (\<lambda>(weight, b2).
     andThen (readUInt16 b2) (\<lambda>(sign, b3).
     andThen (readUInt16 b3) (\<lambda>(dscale, b4).
       if sign \<noteq> NUMERIC_POS \<and> sign \<noteq> NUMERIC_NEG then Inl (Error ''bad decimal sign data'')
       else
         let result = (if sign = NUMERIC_NEG then ''-'' else '''')
         in andThen
              (if weight < 0 then Inr (weight + 1, result @ ''0'', b4)
               else andThen (decimalIntLoop weight ndigits 0 b4 result)
                      (\<lambda>(result', b5). Inr (weight + 1, result', b5)))
              (\<lambda>(d, result, b5).
                 if dscale > 0 then
                   let result = result @ ''.'';
                       end = length result + dscale
                   in andThen (decimalFracLoop dscale ndigits d 0 b5 result)
                        (\<lambda>(result, b6). Inr (slice result 0 (Some (int end)), b6))
                 else Inr (result, b5))))))"

subsection \<open>DecimalCodec\<close>

definition encodeStep :: "string \<Rightarrow> nat list \<times> nat \<Rightarrow> nat \<Rightarrow> nat list \<times> nat" where
  \<comment> \<open>the body of the grouping loop of \<^verbatim>\<open>encode\<close> at index \<open>i\<close>; the state is
      \<open>(digits, lastNonZero)\<close>\<close>
  "encodeStep digitStr st i =
     (let digits = fst st; lastNonZero = snd st;
          n = parseInt (slice digitStr (- int i - 4) (if i = 0 then None else Some (- int i)))
      in if n \<noteq> 0 \<or> (digits \<noteq> [] \<and> hd digits \<noteq> 0)
         then (digits @ [n], if n \<noteq> 0 then length digits + 1 else lastNonZero)
         else (digits, lastNonZero))"

definition encodeLoop :: "string \<Rightarrow> nat list \<times> nat" where
  \<comment> \<open>\<^verbatim>\<open>for (let i = 0, l = digitStr.length; i < l; i+=4)\<close>\<close>
  "encodeLoop digitStr =
     foldl (encodeStep digitStr) ([], 0)
       (map (\<lambda>k. 4 * k) [0 ..< (length digitStr + 3) div 4])"

definition DecimalCodec_encode :: "string \<Rightarrow> error + bytes" where
  "DecimalCodec_encode object =
     (case decimalRegex object of
        None \<Rightarrow> Inl (Error ''invalid decimal string'')
      | Some (sign, int_part, frac) \<Rightarrow>
          let digitStr = int_part @ padEnd frac ((length frac + 3) div 4 * 4) CHR ''0'';
              weight = (int (length int_part) - 1) div 4;
              (digits, lastNonZero) = encodeLoop digitStr;
              (weight, digits) =
                (if lastNonZero \<noteq> length digits
                 then (int lastNonZero - int (length digits), slice digits 0 (Some (int lastNonZero)))
                 else (weight, digits))
          in writeNumeric (8 + int (length digits) * 2) (int (length digits)) True weight
               (int (if sign = ''-'' then NUMERIC_NEG else NUMERIC_POS))
               (int (length frac)) (rev digits))"

fun readGroups :: "nat \<Rightarrow> bytes \<Rightarrow> string \<Rightarrow> error + string \<times> bytes" where
  \<comment> \<open>\<^verbatim>\<open>for (let i = 0; i < ndigits; i++) digits += ...\<close> of \<^verbatim>\<open>decode\<close>\<close>
  "readGroups 0 buf digits = Inr (digits, buf)"
| "readGroups (Suc n) buf digits =
     andThen (readUInt16 buf) (\<lambda>(v, buf').
       readGroups n buf' (digits @ padStart (toString v) 4 CHR ''0''))"

definition DecimalCodec_decode :: "bytes \<Rightarrow> error + string \<times> bytes" where
  "DecimalCodec_decode buf =
     andThen (readUInt16 buf) (\<lambda>(ndigits, b1).
     andThen (readInt16 b1) (\<lambda>(weight, b2).
     andThen (readUInt16 b2) (\<lambda>(sign, b3).
     andThen (readUInt16 b3) (\<lambda>(dscale, b4).
       if sign \<noteq> NUMERIC_NEG \<and> sign \<noteq> NUMERIC_POS then Inl (Error ''bad bigint sign data'')
       else
         let isNegative = (sign = NUMERIC_NEG);
             digits = (if weight < 0 then replicate (nat ((weight + 1) * - 4)) CHR ''0'' else '''')
         in andThen (readGroups ndigits b4 digits) (\<lambda>(digits, b5).
              let digitsLength = dscale + (if weight \<ge> 0 then nat ((weight + 1) * 4) else 0);
                  digits = (if length digits < digitsLength
                            then padEnd digits digitsLength CHR ''0''
                            else slice digits 0 (Some (int digitsLength)))
              in Inr ((if isNegative then ''-'' else '''')
                      @ orElse (stripLeadingZeros (slice digits 0 (Some (- int dscale)))) ''0''
                      @ ''.''
                      @ slice digits (- int dscale) None, b5))))))"

definition numericPayload :: "nat \<Rightarrow> int \<Rightarrow> nat \<Rightarrow> nat \<Rightarrow> nat list \<Rightarrow> bytes" where
  \<comment> \<open>the bytes of a numeric wire value after its length prefix: the header fields and
      the digit groups, each a big-endian 16-bit field\<close>
  "numericPayload ndigits weight sign dscale groups =
     be16 ndigits @ be16 (nat (weight mod 65536)) @ be16 sign @ be16 dscale
     @ concat (map be16 groups)"

definition payloadOf :: "error + bytes \<Rightarrow> error + bytes" where
  \<comment> \<open>what a decoder is handed of an encoder's output: the message after its four-byte
      length, which the framing layer reads\<close>
  "payloadOf r = andThen r (\<lambda>b. Inr (drop 4 b))"

section \<open>Array codec (src/codecs/array.ts)\<close>

datatype jsvalue =
    Null
  | Undefined
  | Str string
  | BigIntValue int
  | Array bool "jsvalue list"    \<comment> \<open>an array and whether it is frozen\<close>
  | TypedArray "jsvalue list"

record ICodec =
  tid :: string
  isScalar :: bool
  encode :: "jsvalue \<Rightarrow> error + bytes"
  decode :: "bytes \<Rightarrow> error + jsvalue \<times> bytes"

definition EMPTY_ARRAY :: jsvalue where
  \<comment> \<open>\<^verbatim>\<open>Object.freeze([])\<close>\<close>
  "EMPTY_ARRAY = Array True []"

fun encodeElems :: "ICodec \<Rightarrow> jsvalue list \<Rightarrow> error + bytes" where
  \<comment> \<open>\<^verbatim>\<open>for (let i = 0; i < objLen; i++)\<close> of \<^verbatim>\<open>encode\<close>, writing to \<^verbatim>\<open>elemData\<close>\<close>
  "encodeElems subCodec [] = Inr []"
| "encodeElems subCodec (item # items) =
     andThen (if item = Null \<or> item = Undefined then writeInt32 (- 1)
              else encode subCodec item) (\<lambda>b.
     andThen (encodeElems subCodec items) (\<lambda>bs. Inr (b @ bs)))"

definition encodeItems :: "ICodec \<Rightarrow> jsvalue list \<Rightarrow> error + bytes" where
  \<comment> \<open>\<^verbatim>\<open>encode\<close> from \<^verbatim>\<open>const objLen = obj.length\<close> on, \<open>obj\<close> being array-like\<close>
  "encodeItems subCodec items =
     (let objLen = int (length items)
      in if objLen > 2147483647 then Inl (Error ''too many elements in array'')
         else
           andThen (encodeElems subCodec items) (\<lambda>elemBuf.
           andThen (writeInt32 (8 + 8 + 1 + int (length elemBuf))) (\<lambda>b0.
           andThen (writeInt32 1) (\<lambda>b1.
           andThen (writeInt32 0) (\<lambda>b2.
           andThen (writeInt32 objLen) (\<lambda>b3.
           andThen (writeInt32 1) (\<lambda>b4.
           Inr (b0 @ b1 @ b2 @ b3 @ b4 @ elemBuf))))))))"

definition ArrayCodec_encode :: "ICodec \<Rightarrow> int \<Rightarrow> jsvalue \<Rightarrow> error + bytes" where
  \<comment> \<open>\<open>subCodec\<close> and \<open>len\<close> are the codec's private fields\<close>
  "ArrayCodec_encode subCodec len obj =
     (if \<not> isScalar subCodec then Inl (Error ''only arrays of scalars are supported'')
      else case obj of
          Array _ items \<Rightarrow> encodeItems subCodec items
        | TypedArray items \<Rightarrow> encodeItems subCodec items
        | Null \<Rightarrow> Inl (TypeError ''Cannot read properties of null'')
        | Undefined \<Rightarrow> Inl (TypeError ''Cannot read properties of undefined'')
        | _ \<Rightarrow> Inl (Error ''an array was expected''))"

fun decodeElems :: "ICodec \<Rightarrow> nat \<Rightarrow> bytes \<Rightarrow> error + jsvalue list \<times> bytes" where
  \<comment> \<open>\<^verbatim>\<open>for (let i = 0; i < len; i++)\<close> of \<^verbatim>\<open>decode\<close>\<close>
  "decodeElems subCodec 0 buf = Inr ([], buf)"
| "decodeElems subCodec (Suc n) buf =
     andThen (readInt32 buf) (\<lambda>(elemLen, buf1).
     andThen (if elemLen = - 1 then Inr (Null, buf1)
              else andThen (consumeInto elemLen buf1) (\<lambda>(elemBuf, buf2).
                   andThen (decode subCodec elemBuf) (\<lambda>(v, _). Inr (v, buf2)))) (\<lambda>(v, buf3).
     andThen (decodeElems subCodec n buf3) (\<lambda>(vs, buf4). Inr (v # vs, buf4))))"

definition ArrayCodec_decode :: "ICodec \<Rightarrow> int \<Rightarrow> bytes \<Rightarrow> error + jsvalue \<times> bytes" where
  "ArrayCodec_decode subCodec len buf =
     andThen (readInt32 buf) (\<lambda>(ndims, buf1).
       if ndims = 0 then Inr (EMPTY_ARRAY, buf1)
       else if ndims \<noteq> 1 then Inl (Error ''only 1-dimensional arrays are supported'')
       else
         andThen (discard 4 buf1) (\<lambda>buf2.
         andThen (readUInt32 buf2) (\<lambda>(len', buf3).
           if len \<noteq> - 1 \<and> int len' \<noteq> len
           then Inl (Error (''invalid array size: received '' @ toString len'
                            @ '', expected '' @ intToString len))
           else
             andThen (discard 4 buf3) (\<lambda>buf4.
             andThen (decodeElems subCodec len' buf4) (\<lambda>(result, buf5).
             Inr (Array True result, buf5))))))"

definition ArrayCodec_new :: "string \<Rightarrow> ICodec \<Rightarrow> int \<Rightarrow> ICodec" where
  \<comment> \<open>the constructor, the object seen through the \<^verbatim>\<open>ICodec\<close> interface\<close>
  "ArrayCodec_new t subCodec len =
     \<lparr>tid = t, isScalar = False,
      encode = ArrayCodec_encode subCodec len,
      decode = ArrayCodec_decode subCodec len\<rparr>"

section \<open>Ring buffer (RingBuffer)\<close>

text \<open>
  Indices are taken modulo \<open>capacity\<close>, which the constructor makes positive and no
  operation lowers.
\<close>

record 'a RingBuffer =
  buffer :: "'a option list"    \<comment> \<open>\<open>None\<close> is \<^verbatim>\<open>undefined\<close>\<close>
  len :: int
  reader :: nat
  writer :: nat
  capacity :: nat

definition getAt :: "'a option list \<Rightarrow> nat \<Rightarrow> 'a option" where
  \<comment> \<open>\<^verbatim>\<open>xs[i]\<close>: \<^verbatim>\<open>undefined\<close> out of range\<close>
  "getAt xs i = (if i < length xs then xs ! i else None)"

definition setAt :: "'a option list \<Rightarrow> nat \<Rightarrow> 'a option \<Rightarrow> 'a option list" where
  \<comment> \<open>\<^verbatim>\<open>xs[i] = v\<close>: the array grows when \<open>i\<close> is out of range\<close>
  "setAt xs i v =
     (if i < length xs then xs[i := v] else xs @ replicate (i - length xs) None @ [v])"

definition setLength :: "'a option list \<Rightarrow> nat \<Rightarrow> 'a option list" where
  \<comment> \<open>\<^verbatim>\<open>xs.length = n\<close>\<close>
  "setLength xs n = take n xs @ replicate (n - length xs) None"

definition RingBuffer_new :: "int \<Rightarrow> error + 'a RingBuffer" where
  "RingBuffer_new cap =
     (if cap \<le> 0 \<or> cap \<ge> 4294967295 then Inl (RingBufferError ''invalid capacity'')
      else Inr \<lparr>buffer = replicate (nat cap) None, len = 0, reader = 0, writer = 0,
                capacity = nat cap\<rparr>)"

definition full :: "'a RingBuffer \<Rightarrow> bool" where
  "full q = False"

definition length_rb :: "'a RingBuffer \<Rightarrow> int" where
  "length_rb q = len q"

definition resize :: "'a RingBuffer \<Rightarrow> 'a RingBuffer" where
  \<comment> \<open>\<^verbatim>\<open>_resize\<close>\<close>
  "resize q =
     (let inc = capacity q;
          q1 = q\<lparr>capacity := capacity q + inc\<rparr>;
          q2 = q1\<lparr>buffer := setLength (buffer q1) (capacity q1)\<rparr>;
          buf = foldl (\<lambda>b i. setAt (setAt b (i + inc) (getAt b i)) i None)
                  (buffer q2) [reader q2 ..< inc]
      in q2\<lparr>buffer := buf, reader := reader q2 + inc\<rparr>)"

definition enq :: "'a \<Rightarrow> 'a RingBuffer \<Rightarrow> 'a RingBuffer" where
  "enq data q =
     (let q1 = (if reader q = writer q \<and> len q > 0 then resize q else q)
      in q1\<lparr>buffer := setAt (buffer q1) (writer q1) (Some data),
             writer := (writer q1 + 1) mod capacity q1,
             len := len q1 + 1\<rparr>)"

definition deq :: "'a RingBuffer \<Rightarrow> 'a option \<times> 'a RingBuffer" where
  "deq q =
     (if reader q = writer q then (None, q)
      else
        let ret = getAt (buffer q) (reader q)
        in (ret, q\<lparr>buffer := setAt (buffer q) (reader q) None,
                    reader := (reader q + 1) mod capacity q,
                    len := len q - 1\<rparr>))"

partial_function (option) clearLoop :: "'a RingBuffer \<Rightarrow> 'a RingBuffer option" where
  \<comment> \<open>\<^verbatim>\<open>while (this.reader !== this.writer)\<close> of \<^verbatim>\<open>clear\<close>\<close>
  "clearLoop q =
     (if reader q \<noteq> writer q
      then clearLoop (q\<lparr>buffer := setAt (buffer q) (reader q) None,
                         reader := (reader q + 1) mod capacity q\<rparr>)
      else Some q)"

definition clear :: "'a RingBuffer \<Rightarrow> 'a RingBuffer option" where
  \<comment> \<open>\<open>None\<close>: the loop does not end\<close>
  "clear q =
     map_option (\<lambda>q1. q1\<lparr>reader := 0, writer := 0, len := 0\<rparr>)
       (if len q \<noteq> 0 then clearLoop q else Some q)"

fun deqN :: "nat \<Rightarrow> 'a RingBuffer \<Rightarrow> 'a option list \<times> 'a RingBuffer" where
  \<comment> \<open>\<open>n\<close> calls of \<^verbatim>\<open>deq\<close> in a row and what each returned\<close>
  "deqN 0 q = ([], q)"
| "deqN (Suc n) q =
     (let (r, q1) = deq q; (rs, q2) = deqN n q1 in (r # rs, q2))"

section \<open>Codec-tree walker (the type generator)\<close>

text \<open>
  The walker tells the codec classes apart with \<^verbatim>\<open>instanceof\<close> and reads their private
  fields; a codec is here the class and those fields. \<open>OtherCodec\<close> is an object of none
  of the classes tested.
\<close>

datatype codec =
    ObjectCodec "string list" "codec list"         \<comment> \<open>\<open>names\<close>, \<open>codecs\<close>\<close>
  | SetCodec codec                                  \<comment> \<open>\<open>subCodec\<close>\<close>
  | TupleCodec "codec list"                         \<comment> \<open>\<open>subCodecs\<close>\<close>
  | NamedTupleCodec "string list" "codec list"      \<comment> \<open>\<open>names\<close>, \<open>subCodecs\<close>\<close>
  | EmptyTupleCodec
  | ArrayCodec codec                                \<comment> \<open>\<open>subCodec\<close>\<close>
  | EnumCodec
  | ScalarCodec string                              \<comment> \<open>\<open>tid\<close>\<close>
  | OtherCodec

record TypingInfo =
  type :: string
  needsImport :: bool

definition ScalarTypings :: "(string \<times> TypingInfo) list" where
  "ScalarTypings =
    [(''std::uuid'',           \<lparr>type = ''UUID'', needsImport = True\<rparr>),
     (''std::str'',            \<lparr>type = ''string'', needsImport = False\<rparr>),
     (''std::bytes'',          \<lparr>type = ''Buffer'', needsImport = False\<rparr>),
     (''std::int16'',          \<lparr>type = ''number'', needsImport = False\<rparr>),
     (''std::int32'',          \<lparr>type = ''number'', needsImport = False\<rparr>),
     (''std::int64'',          \<lparr>type = ''number'', needsImport = False\<rparr>),
     (''std::float32'',        \<lparr>type = ''number'', needsImport = False\<rparr>),
     (''std::float64'',        \<lparr>type = ''number'', needsImport = False\<rparr>),
     (''std::bool'',           \<lparr>type = ''boolean'', needsImport = False\<rparr>),
     (''std::datetime'',       \<lparr>type = ''Date'', needsImport = False\<rparr>),
     (''std::local_datetime'', \<lparr>type = ''LocalDateTime'', needsImport = True\<rparr>),
     (''std::local_date'',     \<lparr>type = ''LocalDate'', needsImport = True\<rparr>),
     (''std::local_time'',     \<lparr>type = ''LocalTime'', needsImport = True\<rparr>),
     (''std::duration'',       \<lparr>type = ''Duration'', needsImport = True\<rparr>),
     (''std::json'',           \<lparr>type = ''string'', needsImport = False\<rparr>),
     (''std::bigint'',         \<lparr>type = ''bigint'', needsImport = False\<rparr>)]"

definition add :: "string \<Rightarrow> string list \<Rightarrow> string list" where
  \<comment> \<open>\<^verbatim>\<open>imports.add(x)\<close>: a \<^verbatim>\<open>Set\<close> keeps insertion order and no duplicate\<close>
  "add x imports = (if x \<in> set imports then imports else imports @ [x])"

definition lineOr :: "string option \<Rightarrow> string" where
  \<comment> \<open>an array element inside a string concatenation: \<^verbatim>\<open>undefined\<close> prints as such\<close>
  "lineOr l = (case l of None \<Rightarrow> ''undefined'' | Some s \<Rightarrow> s)"

definition lineAt :: "string list \<Rightarrow> int \<Rightarrow> string option" where
  \<comment> \<open>\<^verbatim>\<open>xs[i]\<close>\<close>
  "lineAt xs i = (if 0 \<le> i \<and> i < int (length xs) then Some (xs ! nat i) else None)"

definition wrapType :: "string list \<Rightarrow> string \<Rightarrow> string list" where
  "wrapType t withType =
     [withType @ ''<'' @ lineOr (lineAt t 0) @ (if length t = 1 then ''>'' else '''')]
     @ (if length t > 2 then slice t 1 (Some (- 1)) else [])
     @ (if length t > 1 then [lineOr (lineAt t (int (length t) - 1)) @ ''>''] else [])"

text \<open>
  \<open>known\<close> is the table \<^verbatim>\<open>KNOWN_TYPES\<close> of \<^verbatim>\<open>./codecs/codecs\<close>, from type ids to wire
  type names. \<open>imports\<close> is the accumulator every call adds to. \<open>fieldLines\<close> and
  \<open>elementLines\<close> are the two \<^verbatim>\<open>flatMap\<close> calls; \<open>n\<close> is \<^verbatim>\<open>codecs.length\<close> and \<open>i\<close>
  the index.
\<close>

function (sequential) walkCodec :: "(string \<Rightarrow> string option) \<Rightarrow> codec \<Rightarrow> string list \<Rightarrow> error + string list \<times> string list"
  and generateObjectType :: "(string \<Rightarrow> string option) \<Rightarrow> string list \<Rightarrow> codec list \<Rightarrow> string list \<Rightarrow> error + string list \<times> string list"
  and fieldLines :: "(string \<Rightarrow> string option) \<Rightarrow> string list \<Rightarrow> codec list \<Rightarrow> string list \<Rightarrow> error + string list \<times> string list"
  and generateTupleType :: "(string \<Rightarrow> string option) \<Rightarrow> codec list \<Rightarrow> string list \<Rightarrow> error + string list \<times> string list"
  and elementLines :: "(string \<Rightarrow> string option) \<Rightarrow> nat \<Rightarrow> nat \<Rightarrow> codec list \<Rightarrow> string list \<Rightarrow> error + string list \<times> string list"
where
  "walkCodec known (ObjectCodec names codecs) imports =
     generateObjectType known names codecs imports"
| "walkCodec known (SetCodec subCodec) imports =
     andThen (walkCodec known subCodec (add ''Set'' imports)) (\<lambda>(subType, imports1).
       Inr (wrapType subType ''Set'', imports1))"
| "walkCodec known (TupleCodec subCodecs) imports =
     generateTupleType known subCodecs imports"
| "walkCodec known (NamedTupleCodec names subCodecs) imports =
     andThen (generateTupleType known subCodecs imports) (\<lambda>(tupleType, imports1).
     andThen (generateObjectType known names subCodecs imports1) (\<lambda>(objectType, imports2).
       Inr (slice tupleType 0 (Some (- 1))
            @ [lineOr (lineAt tupleType (int (length tupleType) - 1)) @ '' & ''
               @ lineOr (lineAt objectType 0)]
            @ slice objectType 1 None, imports2)))"
| "walkCodec known EmptyTupleCodec imports = Inr ([], imports)"
| "walkCodec known (ArrayCodec subCodec) imports =
     andThen (walkCodec known subCodec imports) (\<lambda>(subType, imports1).
       Inr (slice subType 0 (Some (- 1))
            @ [lineOr (lineAt subType (int (length subType) - 1)) @ ''[]''], imports1))"
| "walkCodec known EnumCodec imports = Inr ([''string''], imports)"
| "walkCodec known (ScalarCodec t) imports =
     (case known t of
        None \<Rightarrow> Inl (Error ''Unknown scalar type'')
      | Some typeName \<Rightarrow>
          if typeName = [] then Inl (Error ''Unknown scalar type'')
          else (case map_of ScalarTypings typeName of
              None \<Rightarrow> Inl (Error (''No codec for scalar type '' @ typeName))
            | Some info \<Rightarrow>
                Inr ([type info], if needsImport info then add (type info) imports else imports)))"
| "walkCodec known OtherCodec imports = Inl (Error ''Unknown codec'')"
| "generateObjectType known names codecs imports =
     andThen (fieldLines known names codecs imports) (\<lambda>(ls, imports1).
       Inr ([''{''] @ ls @ [''}''], imports1))"
| "fieldLines known [] codecs imports = Inr ([], imports)"
| "fieldLines known (fieldName # names) [] imports = Inl (Error ''Unknown codec'')"
| "fieldLines known (fieldName # names) (c # codecs) imports =
     andThen (walkCodec known c imports) (\<lambda>(t, imports1).
     andThen (fieldLines known names codecs imports1) (\<lambda>(ls, imports2).
       Inr ([''  '' @ fieldName @ '': '' @ (case t of [] \<Rightarrow> '''' | firstLine # _ \<Rightarrow> firstLine)]
            @ map (\<lambda>l. ''  '' @ l) (tl t) @ ls, imports2)))"
| "generateTupleType known codecs imports =
     andThen (elementLines known (length codecs) 0 codecs imports) (\<lambda>(ls, imports1).
       Inr ([''[''] @ ls @ ['']''], imports1))"
| "elementLines known n i [] imports = Inr ([], imports)"
| "elementLines known n i (subCodec # codecs) imports =
     andThen (walkCodec known subCodec imports) (\<lambda>(t, imports1).
     andThen (elementLines known n (i + 1) codecs imports1) (\<lambda>(ls, imports2).
       Inr (map (\<lambda>l. ''  '' @ l @ (if int i \<noteq> int n - 1 then '','' else '''')) t @ ls,
            imports2)))"
  by pat_completeness auto
termination
  by (relation "measure (\<lambda>x. case x of
      Inl (Inl (k, c, i)) \<Rightarrow> 3 * size c
    | Inl (Inr (k, ns, cs, i)) \<Rightarrow> 3 * size_list size cs + 2
    | Inr (Inl (k, ns, cs, i)) \<Rightarrow> 3 * size_list size cs + 1
    | Inr (Inr (Inl (k, cs, i))) \<Rightarrow> 3 * size_list size cs + 2
    | Inr (Inr (Inr (k, n, j, cs, i))) \<Rightarrow> 3 * size_list size cs + 1)") simp_all

definition generateArgType :: "(string \<Rightarrow> string option) \<Rightarrow> codec \<Rightarrow> string list \<Rightarrow> error + string list option \<times> string list" where
  \<comment> \<open>\<open>None\<close> is \<^verbatim>\<open>null\<close>\<close>
  "generateArgType known c imports =
     (case c of
        EmptyTupleCodec \<Rightarrow> Inr (None, imports)
      | TupleCodec subCodecs \<Rightarrow>
          andThen (generateTupleType known subCodecs imports) (\<lambda>(t, i). Inr (Some t, i))
      | NamedTupleCodec names subCodecs \<Rightarrow>
          andThen (generateObjectType known names subCodecs imports) (\<lambda>(t, i). Inr (Some t, i))
      | _ \<Rightarrow> Inl (Error ''Unexpected arg codec''))"

definition isScalarLeaf :: "codec \<Rightarrow> bool" where
  \<comment> \<open>a scalar leaf of a codec tree: an enum or a plain scalar codec\<close>
  "isScalarLeaf c = (case c of EnumCodec \<Rightarrow> True | ScalarCodec t \<Rightarrow> True | _ \<Rightarrow> False)"

definition leafTyping :: "(string \<Rightarrow> string option) \<Rightarrow> codec \<Rightarrow> TypingInfo option" where
  \<comment> \<open>the table entry a scalar leaf renders with (the \<^verbatim>\<open>ScalarCodec\<close> branch of \<^verbatim>\<open>walkCodec\<close>):
      an enum renders as \<^verbatim>\<open>string\<close> with no import; \<open>None\<close> where the walker throws\<close>
  "leafTyping known c =
     (case c of
        EnumCodec \<Rightarrow> Some \<lparr>type = ''string'', needsImport = False\<rparr>
      | ScalarCodec t \<Rightarrow>
          (case known t of
             None \<Rightarrow> None
           | Some typeName \<Rightarrow> if typeName = [] then None else map_of ScalarTypings typeName)
      | _ \<Rightarrow> None)"

definition recordImport :: "TypingInfo \<Rightarrow> string list \<Rightarrow> string list" where
  \<comment> \<open>\<^verbatim>\<open>if (needsImport) { imports.add(type) }\<close>\<close>
  "recordImport info imps = (if needsImport info then add (type info) imps else imps)"

definition sampleKnown :: "string \<Rightarrow> string option" where
  \<comment> \<open>a table of known type ids with two entries, for concrete runs of the walker\<close>
  "sampleKnown = map_of [(''00000000000000000000000000000100'', ''std::uuid''),
                         (''00000000000000000000000000000101'', ''std::str'')]"

definition sampleScalar :: ICodec where
  \<comment> \<open>a scalar element codec that writes nothing, for concrete runs of the array codec\<close>
  "sampleScalar = \<lparr>tid = ''00000000000000000000000000000101'', isScalar = True,
                    encode = (\<lambda>v. Inr []), decode = (\<lambda>b. Inr (Null, b))\<rparr>"

section \<open>Notions of the round-trip statements\<close>

definition pad4 :: "nat \<Rightarrow> string" where
  \<comment> \<open>a digit group as both decoders print it: \<^verbatim>\<open>toString\<close> padded to four digits\<close>
  "pad4 v = padStart (toString v) 4 CHR ''0''"

definition canonicalDecimal :: "string \<Rightarrow> string \<Rightarrow> string \<Rightarrow> bool" where
  \<comment> \<open>sign, integer part and fraction of a decimal string in the form \<^verbatim>\<open>decode\<close> prints:
      no sign or \<open>-\<close>, no superfluous leading zero, at least one fractional digit; the
      lengths are those that fit the 16-bit \<open>weight\<close> and \<open>dscale\<close> fields\<close>
  "canonicalDecimal sg ip fp =
     ((sg = [] \<or> sg = ''-'')
      \<and> ip \<noteq> [] \<and> list_all isDigit ip \<and> (ip = ''0'' \<or> hd ip \<noteq> CHR ''0'')
      \<and> fp \<noteq> [] \<and> list_all isDigit fp
      \<and> length ip \<le> 131072 \<and> length fp \<le> 65535)"

definition groupStr :: "string \<Rightarrow> nat \<Rightarrow> string" where
  \<comment> \<open>the \<open>k\<close>-th group of four characters of \<open>D\<close> counted from its end: what
      \<^verbatim>\<open>digitStr.slice(-i-4, -i)\<close> cuts at \<open>i = 4 * k\<close>\<close>
  "groupStr D k = drop (length D - 4 * k - 4) (take (length D - 4 * k) D)"

definition stepV :: "nat list \<times> nat \<Rightarrow> nat \<Rightarrow> nat list \<times> nat" where
  \<comment> \<open>\<open>encodeStep\<close> as a function of the parsed group value \<open>n\<close>\<close>
  "stepV st n =
     (if n \<noteq> 0 \<or> (fst st \<noteq> [] \<and> hd (fst st) \<noteq> 0)
      then (fst st @ [n], if n \<noteq> 0 then length (fst st) + 1 else snd st)
      else st)"

definition loopState :: "nat list \<Rightarrow> nat list \<times> nat" where
  \<comment> \<open>the state of the grouping loop after the group values \<open>vs\<close>: the values from the
      first nonzero one on, and the position after the last nonzero one\<close>
  "loopState vs =
     (dropWhile (\<lambda>v. v = 0) vs,
      length (dropWhile (\<lambda>v. v = 0) (rev (dropWhile (\<lambda>v. v = 0) vs))))"

definition renderDecimal :: "bool \<Rightarrow> int \<Rightarrow> nat \<Rightarrow> nat list \<Rightarrow> string" where
  \<comment> \<open>the string \<^verbatim>\<open>decode\<close> builds once the header fields and the groups are read\<close>
  "renderDecimal isNegative weight dscale groups =
     (let digits = (if weight < 0 then replicate (nat ((weight + 1) * - 4)) CHR ''0'' else '''')
                   @ concat (map pad4 groups);
          digitsLength = dscale + (if weight \<ge> 0 then nat ((weight + 1) * 4) else 0);
          digits = (if length digits < digitsLength
                    then padEnd digits digitsLength CHR ''0''
                    else slice digits 0 (Some (int digitsLength)))
      in (if isNegative then ''-'' else '''')
         @ orElse (stripLeadingZeros (slice digits 0 (Some (- int dscale)))) ''0''
         @ ''.''
         @ slice digits (- int dscale) None)"

section \<open>Results sequenced with \<open>andThen\<close>\<close>

lemma andThen_Inr [simp]: "andThen (Inr v) f = f v"
  by (simp add: andThen_def)

lemma andThen_Inl [simp]: "andThen (Inl e) f = Inl e"
  by (simp add: andThen_def)

lemma andThen_eq_Inr:
  "andThen r f = Inr y \<longleftrightarrow> (\<exists>v. r = Inr v \<and> f v = Inr y)"
  by (cases r) simp_all

section \<open>Decimal digits\<close>

lemma digitChar_numerals:
  "digitChar 0 = CHR ''0''" "digitChar 1 = CHR ''1''" "digitChar 2 = CHR ''2''"
  "digitChar 3 = CHR ''3''" "digitChar 4 = CHR ''4''" "digitChar 5 = CHR ''5''"
  "digitChar 6 = CHR ''6''" "digitChar 7 = CHR ''7''" "digitChar 8 = CHR ''8''"
  "digitChar 9 = CHR ''9''"
  "digitChar (Suc 0) = CHR ''1''" "digitChar (Suc (Suc 0)) = CHR ''2''"
  by code_simp+

section \<open>Array codec: dimensions and element codecs\<close>

text \<open>
  Claim C8. Decoding an array payload whose \<open>ndims\<close> field is 0 returns the canonical
  frozen empty array; decoding one whose \<open>ndims\<close> field is neither 0 nor 1 fails with
  "only 1-dimensional arrays are supported"; encoding fails with "only arrays of scalars
  are supported" whenever the element codec is not scalar, and so whenever the element
  codec is itself an array codec.
\<close>

theorem array_codec_dimensions_and_scalars:
  "(readInt32 buf = Inr (0, rest) \<longrightarrow>
      ArrayCodec_decode subCodec fixedLen buf = Inr (EMPTY_ARRAY, rest))
   \<and> (readInt32 buf = Inr (ndims, rest) \<and> ndims \<noteq> 0 \<and> ndims \<noteq> 1 \<longrightarrow>
        ArrayCodec_decode subCodec fixedLen buf
          = Inl (Error ''only 1-dimensional arrays are supported''))
   \<and> (\<not> isScalar subCodec \<longrightarrow>
        ArrayCodec_encode subCodec fixedLen obj
          = Inl (Error ''only arrays of scalars are supported''))
   \<and> ArrayCodec_encode (ArrayCodec_new t elemCodec elemLen) fixedLen obj
        = Inl (Error ''only arrays of scalars are supported'')"
  by (simp add: ArrayCodec_decode_def ArrayCodec_encode_def ArrayCodec_new_def)

theorem array_codec_dimensions_and_scalars_witness:
  "readInt32 [0, 0, 0, 0, 7] = Inr (0, [7])
   \<and> ArrayCodec_decode (ArrayCodec_new ''a'' sampleScalar 3) (- 1) [0, 0, 0, 0, 7]
        = Inr (EMPTY_ARRAY, [7])
   \<and> readInt32 [0, 0, 0, 2, 7] = Inr (2, [7])
   \<and> ArrayCodec_decode (ArrayCodec_new ''a'' sampleScalar 3) (- 1) [0, 0, 0, 2, 7]
        = Inl (Error ''only 1-dimensional arrays are supported'')
   \<and> \<not> isScalar (ArrayCodec_new ''a'' sampleScalar 3)
   \<and> ArrayCodec_encode (ArrayCodec_new ''a'' sampleScalar 3) (- 1)
          (Array False [Array False [Str ''x'']])
        = Inl (Error ''only arrays of scalars are supported'')"
  using array_codec_dimensions_and_scalars
      [where buf = "[0, 0, 0, 0, 7]" and rest = "[7]" and ndims = 0
        and subCodec = "ArrayCodec_new ''a'' sampleScalar 3" and fixedLen = "- 1"
        and obj = "Array False [Array False [Str ''x'']]" and t = "''a''"
        and elemCodec = sampleScalar and elemLen = 3]
    array_codec_dimensions_and_scalars
      [where buf = "[0, 0, 0, 2, 7]" and rest = "[7]" and ndims = 2
        and subCodec = "ArrayCodec_new ''a'' sampleScalar 3" and fixedLen = "- 1"
        and obj = "Array False [Array False [Str ''x'']]" and t = "''a''"
        and elemCodec = sampleScalar and elemLen = 3]
  by (simp add: readInt32_def ArrayCodec_new_def)

text \<open>
  Claim C10. Whatever fixed length an array codec is configured with, decoding a payload
  whose \<open>ndims\<close> field is 0 returns the canonical empty array: the check of the declared
  length against the configured one is on the \<open>ndims = 1\<close> path only. Every failure of
  \<open>decode\<close> off that path is a buffer overread or the dimension error, never "invalid
  array size".
\<close>

theorem array_decode_empty_ignores_fixed_length:
  "(readInt32 buf = Inr (0, rest) \<longrightarrow>
      ArrayCodec_decode subCodec fixedLen buf = Inr (EMPTY_ARRAY, rest))
   \<and> (ArrayCodec_decode subCodec fixedLen buf = Inl e \<longrightarrow>
        (\<exists>rest. readInt32 buf = Inr (1, rest)) \<or> e = overread
        \<or> e = Error ''only 1-dimensional arrays are supported'')"
proof (intro conjI impI)
  assume "readInt32 buf = Inr (0, rest)"
  then show "ArrayCodec_decode subCodec fixedLen buf = Inr (EMPTY_ARRAY, rest)"
    by (simp add: ArrayCodec_decode_def)
next
  assume err: "ArrayCodec_decode subCodec fixedLen buf = Inl e"
  show "(\<exists>rest. readInt32 buf = Inr (1, rest)) \<or> e = overread
        \<or> e = Error ''only 1-dimensional arrays are supported''"
  proof (cases "readInt32 buf")
    case (Inl e')
    then have "e' = overread"
      by (cases "readUInt32 buf") (auto simp: readInt32_def elim: readUInt32.elims)
    with Inl err show ?thesis by (simp add: ArrayCodec_decode_def)
  next
    case (Inr p)
    obtain ndims rest where p: "p = (ndims, rest)" by (cases p)
    with Inr err show ?thesis
      by (cases "ndims = 1") (auto simp: ArrayCodec_decode_def split: if_splits)
  qed
qed

theorem array_decode_empty_ignores_fixed_length_witness:
  "readInt32 [0, 0, 0, 0] = Inr (0, [])
   \<and> ArrayCodec_decode sampleScalar 5 [0, 0, 0, 0] = Inr (EMPTY_ARRAY, [])
   \<and> ArrayCodec_decode sampleScalar 5 [0, 0, 0, 1, 0, 0, 0, 0, 0, 0, 0, 2, 0, 0, 0, 1]
        = Inl (Error ''invalid array size: received 2, expected 5'')
   \<and> readInt32 [0, 0, 0, 1, 0, 0, 0, 0, 0, 0, 0, 2, 0, 0, 0, 1]
        = Inr (1, [0, 0, 0, 0, 0, 0, 0, 2, 0, 0, 0, 1])"
proof -
  have r0: "readInt32 [0, 0, 0, 0] = Inr (0, [])"
    by (simp add: readInt32_def)
  have bad: "ArrayCodec_decode sampleScalar 5 [0, 0, 0, 1, 0, 0, 0, 0, 0, 0, 0, 2, 0, 0, 0, 1]
        = Inl (Error ''invalid array size: received 2, expected 5'')"
    by (simp add: ArrayCodec_decode_def readInt32_def discard_def toString.simps
        intToString_def digitChar_numerals)
  have r1: "readInt32 [0, 0, 0, 1, 0, 0, 0, 0, 0, 0, 0, 2, 0, 0, 0, 1]
        = Inr (1, [0, 0, 0, 0, 0, 0, 0, 2, 0, 0, 0, 1])"
    by (simp add: readInt32_def)
  from array_decode_empty_ignores_fixed_length
      [where buf = "[0, 0, 0, 0]" and rest = "[]" and subCodec = sampleScalar and fixedLen = 5] r0
  have "ArrayCodec_decode sampleScalar 5 [0, 0, 0, 0] = Inr (EMPTY_ARRAY, [])"
    by blast
  with r0 bad r1 show ?thesis by blast
qed

section \<open>Codec-tree walker: objects and sets of scalar leaves\<close>

lemma set_add: "set (add x imps) = insert x (set imps)"
  by (auto simp: add_def)

lemma leaf_walk:
  "leafTyping known c = Some info \<Longrightarrow>
     walkCodec known c imps = Inr ([type info], recordImport info imps)"
  by (cases c) (auto simp: leafTyping_def recordImport_def split: option.splits if_splits)

lemma leaf_without_typing_throws:
  "isScalarLeaf c \<Longrightarrow> leafTyping known c = None \<Longrightarrow> \<exists>e. walkCodec known c imps = Inl e"
  by (cases c) (auto simp: leafTyping_def isScalarLeaf_def split: option.splits if_splits)

lemma object_with_unknown_leaf_throws:
  "isScalarLeaf ca \<Longrightarrow> leafTyping known ca = None \<Longrightarrow>
     \<exists>e. walkCodec known (ObjectCodec [na, nb] [ca, cb]) imps = Inl e"
  using leaf_without_typing_throws [of ca known imps] by auto

lemma set_recordImport: "set imps \<subseteq> set (recordImport info imps)"
  by (auto simp: recordImport_def set_add)

lemma unknown_scalar_example:
  "walkCodec sampleKnown (ObjectCodec [''id'', ''name'']
        [ScalarCodec ''00000000000000000000000000000100'',
         ScalarCodec ''000000000000000000000000000001ff'']) [''TypedQuery'']
     = Inl (Error ''Unknown scalar type'')"
  by (simp add: sampleKnown_def ScalarTypings_def add_def)

text \<open>
  Claim C9. Take two scalar leaves that the walker has a typing for: an enum, or a scalar
  whose type id has a known name with an entry in the scalar-type table (\<open>leafTyping\<close> gives
  the entry). The walker renders the object codec with these two fields as a fragment of
  exactly fields-count + 2 = 4 lines: the opening brace, one line per field in declaration
  order, each the field name and the leaf's one-line fragment, and the closing brace. It
  renders a set codec over such a leaf as the leaf's fragment wrapped once in
  \<open>Set<...>\<close>, and \<open>Set\<close> is among the imports recorded. For enum leaves this holds
  whatever the table of known type ids is. A scalar leaf without a typing is outside this
  statement: there the walker throws, as \<open>leaf_without_typing_throws\<close> and
  \<open>object_with_unknown_leaf_throws\<close> state.
\<close>

theorem walker_object_and_set_of_scalar_leaves:
  "(leafTyping known ca = Some ia \<and> leafTyping known cb = Some ib
    \<longrightarrow> walkCodec known ca imps = Inr ([type ia], recordImport ia imps)
      \<and> walkCodec known cb (recordImport ia imps)
          = Inr ([type ib], recordImport ib (recordImport ia imps))
      \<and> (\<exists>fragment.
            walkCodec known (ObjectCodec [na, nb] [ca, cb]) imps
              = Inr (fragment, recordImport ib (recordImport ia imps))
          \<and> fragment = [''{'', ''  '' @ na @ '': '' @ type ia, ''  '' @ nb @ '': '' @ type ib, ''}'']
          \<and> length fragment = length [na, nb] + 2))
   \<and> (leafTyping known c = Some i
    \<longrightarrow> walkCodec known c (add ''Set'' imps) = Inr ([type i], recordImport i (add ''Set'' imps))
      \<and> walkCodec known (SetCodec c) imps
          = Inr ([''Set<'' @ type i @ ''>''], recordImport i (add ''Set'' imps))
      \<and> ''Set'' \<in> set (recordImport i (add ''Set'' imps)))
   \<and> walkCodec known (ObjectCodec [na, nb] [EnumCodec, EnumCodec]) imps
        = Inr ([''{'', ''  '' @ na @ '': string'', ''  '' @ nb @ '': string'', ''}''], imps)
   \<and> walkCodec known (SetCodec EnumCodec) imps = Inr ([''Set<string>''], add ''Set'' imps)"
proof (intro conjI impI)
  assume a: "leafTyping known ca = Some ia \<and> leafTyping known cb = Some ib"
  then show wa: "walkCodec known ca imps = Inr ([type ia], recordImport ia imps)"
    by (simp add: leaf_walk)
  from a show wb: "walkCodec known cb (recordImport ia imps)
      = Inr ([type ib], recordImport ib (recordImport ia imps))"
    by (simp add: leaf_walk)
  show "\<exists>fragment.
            walkCodec known (ObjectCodec [na, nb] [ca, cb]) imps
              = Inr (fragment, recordImport ib (recordImport ia imps))
          \<and> fragment = [''{'', ''  '' @ na @ '': '' @ type ia, ''  '' @ nb @ '': '' @ type ib, ''}'']
          \<and> length fragment = length [na, nb] + 2"
    by (simp add: wa wb)
next
  assume a: "leafTyping known c = Some i"
  then show w: "walkCodec known c (add ''Set'' imps)
      = Inr ([type i], recordImport i (add ''Set'' imps))"
    by (rule leaf_walk)
  show "walkCodec known (SetCodec c) imps
      = Inr ([''Set<'' @ type i @ ''>''], recordImport i (add ''Set'' imps))"
    by (simp add: w wrapType_def lineAt_def lineOr_def)
  show "''Set'' \<in> set (recordImport i (add ''Set'' imps))"
    using set_recordImport [of "add ''Set'' imps" i] by (auto simp: set_add)
next
  show "walkCodec known (ObjectCodec [na, nb] [EnumCodec, EnumCodec]) imps
      = Inr ([''{'', ''  '' @ na @ '': string'', ''  '' @ nb @ '': string'', ''}''], imps)"
    by simp
next
  show "walkCodec known (SetCodec EnumCodec) imps = Inr ([''Set<string>''], add ''Set'' imps)"
    by (simp add: wrapType_def lineAt_def lineOr_def)
qed

theorem walker_object_and_set_of_scalar_leaves_witness:
  "leafTyping sampleKnown (ScalarCodec ''00000000000000000000000000000100'')
      = Some \<lparr>type = ''UUID'', needsImport = True\<rparr>
   \<and> leafTyping sampleKnown (ScalarCodec ''00000000000000000000000000000101'')
      = Some \<lparr>type = ''string'', needsImport = False\<rparr>
   \<and> walkCodec sampleKnown (ObjectCodec [''id'', ''name'']
        [ScalarCodec ''00000000000000000000000000000100'',
         ScalarCodec ''00000000000000000000000000000101'']) [''TypedQuery'']
      = Inr ([''{'', ''  id: UUID'', ''  name: string'', ''}''], [''TypedQuery'', ''UUID''])
   \<and> walkCodec sampleKnown (SetCodec (ScalarCodec ''00000000000000000000000000000100''))
        [''TypedQuery'']
      = Inr ([''Set<UUID>''], [''TypedQuery'', ''Set'', ''UUID''])
   \<and> ''Set'' \<in> set [''TypedQuery'', ''Set'', ''UUID'']"
proof -
  have la: "leafTyping sampleKnown (ScalarCodec ''00000000000000000000000000000100'')
      = Some \<lparr>type = ''UUID'', needsImport = True\<rparr>"
    by (simp add: leafTyping_def sampleKnown_def ScalarTypings_def)
  have lb: "leafTyping sampleKnown (ScalarCodec ''00000000000000000000000000000101'')
      = Some \<lparr>type = ''string'', needsImport = False\<rparr>"
    by (simp add: leafTyping_def sampleKnown_def ScalarTypings_def)
  have ra: "recordImport \<lparr>type = ''string'', needsImport = False\<rparr>
        (recordImport \<lparr>type = ''UUID'', needsImport = True\<rparr> [''TypedQuery''])
      = [''TypedQuery'', ''UUID'']"
    by (simp add: recordImport_def add_def)
  have rb: "recordImport \<lparr>type = ''UUID'', needsImport = True\<rparr> (add ''Set'' [''TypedQuery''])
      = [''TypedQuery'', ''Set'', ''UUID'']"
    by (simp add: recordImport_def add_def)
  from walker_object_and_set_of_scalar_leaves
      [where known = sampleKnown
        and ca = "ScalarCodec ''00000000000000000000000000000100''"
        and cb = "ScalarCodec ''00000000000000000000000000000101''"
        and ia = "\<lparr>type = ''UUID'', needsImport = True\<rparr>"
        and ib = "\<lparr>type = ''string'', needsImport = False\<rparr>"
        and na = "''id''" and nb = "''name''" and imps = "[''TypedQuery'']"
        and c = "ScalarCodec ''00000000000000000000000000000100''"
        and i = "\<lparr>type = ''UUID'', needsImport = True\<rparr>"]
    la lb
  have "walkCodec sampleKnown (ObjectCodec [''id'', ''name'']
        [ScalarCodec ''00000000000000000000000000000100'',
         ScalarCodec ''00000000000000000000000000000101'']) [''TypedQuery'']
      = Inr ([''{'', ''  id: UUID'', ''  name: string'', ''}''], [''TypedQuery'', ''UUID''])
   \<and> walkCodec sampleKnown (SetCodec (ScalarCodec ''00000000000000000000000000000100''))
        [''TypedQuery'']
      = Inr ([''Set<UUID>''], [''TypedQuery'', ''Set'', ''UUID''])
   \<and> ''Set'' \<in> set [''TypedQuery'', ''Set'', ''UUID'']"
    unfolding ra rb by (simp del: walkCodec.simps)
  with la lb show ?thesis
    by blast
qed

section \<open>Ring buffer: a full queue reads as empty\<close>

text \<open>
  Claim C2 says that \<open>reader = writer\<close> implies \<open>length = 0\<close> in every reachable state,
  so that \<open>deq\<close> returns the empty sentinel only when nothing is pending. In a queue of
  capacity 2, two calls of \<open>enq\<close> lead to a state with \<open>reader = writer\<close> and \<open>len = 2\<close>,
  and \<open>deq\<close> returns \<^verbatim>\<open>undefined\<close> there and changes nothing.
\<close>

theorem deq_reports_empty_on_full_queue:
  "RingBuffer_new 2
     = Inr \<lparr>buffer = [None, None :: string option], len = 0, reader = 0, writer = 0,
            capacity = 2\<rparr>
   \<and> enq ''b'' (enq ''a''
        \<lparr>buffer = [None, None], len = 0, reader = 0, writer = 0, capacity = 2\<rparr>)
       = \<lparr>buffer = [Some ''a'', Some ''b''], len = 2, reader = 0, writer = 0, capacity = 2\<rparr>
   \<and> deq \<lparr>buffer = [Some ''a'', Some ''b''], len = 2, reader = 0, writer = 0, capacity = 2\<rparr>
       = (None,
          \<lparr>buffer = [Some ''a'', Some ''b''], len = 2, reader = 0, writer = 0, capacity = 2\<rparr>)"
  by code_simp

text \<open>
  Claim C6 says that N calls of \<open>enq\<close> followed by N calls of \<open>deq\<close> return the items in
  the order they went in, also for N above the initial capacity. With capacity 2 and
  N = 4 the queue grows once, keeps the four items in order in its storage, and ends
  with \<open>reader = writer\<close>: each of the four calls of \<open>deq\<close> returns \<^verbatim>\<open>undefined\<close>.
\<close>

theorem four_enqueues_then_four_dequeues:
  "enq ''d'' (enq ''c'' (enq ''b'' (enq ''a''
      \<lparr>buffer = [None, None], len = 0, reader = 0, writer = 0, capacity = 2\<rparr>)))
     = \<lparr>buffer = [Some ''c'', Some ''d'', Some ''a'', Some ''b''], len = 4, reader = 2,
        writer = 2, capacity = 4\<rparr>
   \<and> deqN 4 \<lparr>buffer = [Some ''c'', Some ''d'', Some ''a'', Some ''b''], len = 4, reader = 2,
              writer = 2, capacity = 4\<rparr>
     = ([None, None, None, None],
        \<lparr>buffer = [Some ''c'', Some ''d'', Some ''a'', Some ''b''], len = 4, reader = 2,
         writer = 2, capacity = 4\<rparr>)"
  by code_simp

section \<open>Decimal codec on concrete values\<close>

text \<open>
  Claim C1 says that \<open>decode\<close> renders exactly \<open>dscale\<close> digits after the point and the
  integer digits of the encoded value, \<open>5\<close> for the payload with one digit group 5,
  weight 0 and \<open>dscale = 0\<close>. On that payload \<open>decode\<close> returns \<open>0.0005\<close>: with
  \<open>dscale = 0\<close> both slices take their index \<open>-0\<close> from the start of the string. The
  string-preserving decoder returns \<open>5\<close> on the same payload.
\<close>

theorem decimal_decode_scale_zero:
  "DecimalCodec_decode (numericPayload 1 0 NUMERIC_POS 0 [5]) = Inr (''0.0005'', [])
   \<and> decodeDecimalToString (numericPayload 1 0 NUMERIC_POS 0 [5]) = Inr (''5'', [])"
  by code_simp

text \<open>
  Claim C3, as stated: \<open>1.50\<close> encodes to one digit group of value 1 with weight 0 and
  \<open>dscale = 2\<close>, and those bytes decode to \<open>1.50\<close>. Both halves fail.
\<close>

theorem decimal_vector_counterexample:
  "\<not> (payloadOf (DecimalCodec_encode ''1.50'') = Inr (numericPayload 1 0 NUMERIC_POS 2 [1])
      \<and> DecimalCodec_decode (numericPayload 1 0 NUMERIC_POS 2 [1]) = Inr (''1.50'', []))"
  by code_simp

text \<open>
  Claim C3, amended: \<open>1.50\<close> encodes to two digit groups, 1 and 5000, with weight 0 and
  \<open>dscale = 2\<close>, and those bytes decode to \<open>1.50\<close>; the payload with the single group 1
  decodes to \<open>1.00\<close>.
\<close>

theorem decimal_vector_one_point_five:
  "payloadOf (DecimalCodec_encode ''1.50'') = Inr (numericPayload 2 0 NUMERIC_POS 2 [1, 5000])
   \<and> DecimalCodec_decode (numericPayload 2 0 NUMERIC_POS 2 [1, 5000]) = Inr (''1.50'', [])
   \<and> DecimalCodec_decode (numericPayload 1 0 NUMERIC_POS 2 [1]) = Inr (''1.00'', [])"
  by code_simp

text \<open>
  Claim C4 says that \<open>encode\<close> rejects every string that is not sign, digits, a decimal
  point and digits, a string of digits without a point among them. The dot of the
  pattern is unescaped and matches any character: \<open>123\<close> is accepted and encoded as the
  value 1.3, and so is \<open>1x5\<close> as 1.5.
\<close>

theorem decimal_encode_accepts_digits_without_point:
  "payloadOf (DecimalCodec_encode ''123'') = Inr (numericPayload 2 0 NUMERIC_POS 1 [1, 3000])
   \<and> payloadOf (DecimalCodec_encode ''1x5'') = Inr (numericPayload 2 0 NUMERIC_POS 1 [1, 5000])
   \<and> decimalRegex ''123'' = Some ('''', ''1'', ''3'')"
  by code_simp

section \<open>Digits, \<open>parseInt\<close> and \<open>toString\<close>\<close>

lemma isDigit_digitChar: "d < 10 \<Longrightarrow> isDigit (digitChar d)"
  by (simp add: isDigit_def digitChar_def)

lemma digitVal_digitChar: "d < 10 \<Longrightarrow> digitVal (digitChar d) = d"
  by (simp add: digitVal_def digitChar_def)

lemma digitChar_digitVal: "isDigit c \<Longrightarrow> digitChar (digitVal c) = c"
  by (simp add: digitChar_def digitVal_def isDigit_def Let_def)

lemma digitVal_less: "isDigit c \<Longrightarrow> digitVal c < 10"
  by (auto simp: digitVal_def isDigit_def Let_def)

lemma digitVal_zero: "isDigit c \<Longrightarrow> digitVal c = 0 \<longleftrightarrow> c = CHR ''0''"
proof
  assume d: "isDigit c" and z: "digitVal c = 0"
  from d have "digitChar (digitVal c) = c" by (rule digitChar_digitVal)
  with z show "c = CHR ''0''" by (simp add: digitChar_numerals)
next
  assume "c = CHR ''0''"
  then show "digitVal c = 0" by (simp add: digitVal_def)
qed

lemma isDigit_zero: "isDigit CHR ''0''"
  by (simp add: isDigit_def)

lemma not_isDigit_point: "\<not> isDigit CHR ''.''"
  by (simp add: isDigit_def)

lemma parseInt_digits:
  "list_all isDigit s \<Longrightarrow> parseInt s = foldl (\<lambda>a c. 10 * a + digitVal c) 0 s"
  by (simp add: parseInt_def list_all_iff takeWhile_eq_all_conv [THEN iffD2])

lemma parseInt_snoc:
  "list_all isDigit s \<Longrightarrow> isDigit c \<Longrightarrow> parseInt (s @ [c]) = 10 * parseInt s + digitVal c"
  by (simp add: parseInt_digits)

lemma parseInt_Nil: "parseInt [] = 0"
  by (simp add: parseInt_def)

lemma toString_digit: "v < 10 \<Longrightarrow> toString v = [digitChar v]"
  by (subst toString.simps) simp

lemma toString_step:
  "v < 10 \<Longrightarrow> toString (10 * p + v) = (if p = 0 then [digitChar v] else toString p @ [digitChar v])"
  by (subst toString.simps) simp

lemma parseInt_eq_0:
  "list_all isDigit s \<Longrightarrow> parseInt s = 0 \<longleftrightarrow> (\<forall>c \<in> set s. c = CHR ''0'')"
proof (induction s rule: rev_induct)
  case Nil
  show ?case by (simp add: parseInt_Nil)
next
  case (snoc c s)
  then have d: "list_all isDigit s" "isDigit c" by simp_all
  with snoc.IH show ?case
    by (auto simp: parseInt_snoc digitVal_zero)
qed

lemma toString_parseInt:
  "list_all isDigit s \<Longrightarrow>
     toString (parseInt s) = orElse (stripLeadingZeros s) ''0''"
proof (induction s rule: rev_induct)
  case Nil
  show ?case
    by (simp add: parseInt_Nil toString.simps orElse_def stripLeadingZeros_def digitChar_numerals)
next
  case (snoc c s)
  then have d: "list_all isDigit s" "isDigit c" by simp_all
  have ih: "toString (parseInt s) = orElse (stripLeadingZeros s) ''0''"
    using snoc.IH d by simp
  show ?case
  proof (cases "parseInt s = 0")
    case True
    with d have z: "\<forall>c \<in> set s. c = CHR ''0''" by (simp add: parseInt_eq_0)
    then have "stripLeadingZeros (s @ [c]) = stripLeadingZeros [c]"
      by (simp add: stripLeadingZeros_def dropWhile_append)
    moreover have "toString (parseInt (s @ [c])) = [c]"
      using d True by (simp add: parseInt_snoc toString_digit digitVal_less digitChar_digitVal)
    ultimately show ?thesis
      by (simp add: orElse_def stripLeadingZeros_def)
  next
    case False
    with d have nz: "\<not> (\<forall>c \<in> set s. c = CHR ''0'')" by (simp add: parseInt_eq_0)
    then have sl: "stripLeadingZeros (s @ [c]) = stripLeadingZeros s @ [c]"
      by (auto simp: stripLeadingZeros_def dropWhile_append)
    from nz have ne: "stripLeadingZeros s \<noteq> []"
      by (auto simp: stripLeadingZeros_def dropWhile_eq_Nil_conv)
    have "toString (parseInt (s @ [c])) = toString (parseInt s) @ [c]"
      using d False by (simp add: parseInt_snoc toString_step digitVal_less digitChar_digitVal)
    with ih sl ne show ?thesis by (simp add: orElse_def)
  qed
qed

lemma takeWhile_eq_replicate:
  "takeWhile (\<lambda>c. c = a) s = replicate (length (takeWhile (\<lambda>c. c = a) s)) a"
  by (induction s) simp_all

lemma length_takeWhile_dropWhile:
  "length (takeWhile P s) + length (dropWhile P s) = length s"
  by (induction s) simp_all

lemma stripLeadingZeros_decomp:
  "s = replicate (length s - length (stripLeadingZeros s)) CHR ''0'' @ stripLeadingZeros s"
proof -
  let ?P = "\<lambda>c. c = CHR ''0''"
  have "length (takeWhile ?P s) = length s - length (dropWhile ?P s)"
    using length_takeWhile_dropWhile [of ?P s] by simp
  then have "takeWhile ?P s = replicate (length s - length (dropWhile ?P s)) CHR ''0''"
    using takeWhile_eq_replicate [of "CHR ''0''" s] by simp
  then have "takeWhile ?P s @ dropWhile ?P s
      = replicate (length s - length (dropWhile ?P s)) CHR ''0'' @ dropWhile ?P s"
    by simp
  then show ?thesis
    by (simp add: stripLeadingZeros_def)
qed

lemma pad4_parseInt:
  assumes "list_all isDigit s" and "length s \<le> 4"
  shows "pad4 (parseInt s) = replicate (4 - length s) CHR ''0'' @ s"
proof (cases "stripLeadingZeros s = []")
  case True
  then have s: "s = replicate (length s) CHR ''0''"
    using stripLeadingZeros_decomp [of s] by simp
  have "replicate (4 - length s) CHR ''0'' @ replicate (length s) CHR ''0''
      = replicate 4 CHR ''0''"
    using assms(2) by (simp flip: replicate_add)
  with s have r: "replicate (4 - length s) CHR ''0'' @ s = replicate 4 CHR ''0''"
    by simp
  have "pad4 (parseInt s) = replicate 3 CHR ''0'' @ ''0''"
    using assms True by (simp add: pad4_def toString_parseInt orElse_def padStart_def)
  also have "\<dots> = replicate 4 CHR ''0''"
    by (simp add: numeral_eq_Suc)
  finally show ?thesis using r by simp
next
  case False
  let ?t = "stripLeadingZeros s"
  have len: "length ?t \<le> length s"
    by (simp add: stripLeadingZeros_def length_dropWhile_le)
  have "pad4 (parseInt s) = replicate (4 - length ?t) CHR ''0'' @ ?t"
    using assms False by (simp add: pad4_def toString_parseInt orElse_def padStart_def)
  also have "4 - length ?t = (4 - length s) + (length s - length ?t)"
    using len assms(2) by simp
  also have "replicate ((4 - length s) + (length s - length ?t)) CHR ''0'' @ ?t
      = replicate (4 - length s) CHR ''0'' @ (replicate (length s - length ?t) CHR ''0'' @ ?t)"
    by (simp add: replicate_add)
  also have "replicate (length s - length ?t) CHR ''0'' @ ?t = s"
    using stripLeadingZeros_decomp [of s] by simp
  finally show ?thesis .
qed

lemma pad4_zero: "pad4 0 = ''0000''"
  by code_simp

section \<open>The pattern on canonical decimal strings\<close>

lemma matchDot_point:
  "fp \<noteq> [] \<Longrightarrow> list_all isDigit fp \<Longrightarrow> matchDot (CHR ''.'' # fp) = Some fp"
  by (simp add: matchDot_def matchFrac_def lineTerminator_def)

lemma takeWhile_digits_point:
  "list_all isDigit ip \<Longrightarrow> takeWhile isDigit (ip @ CHR ''.'' # fp) = ip"
  by (induction ip) (simp_all add: not_isDigit_point)

lemma matchInt_canonical:
  assumes "ip \<noteq> []" "list_all isDigit ip" "fp \<noteq> []" "list_all isDigit fp"
  shows "matchInt (ip @ CHR ''.'' # fp) = Some (ip, fp)"
proof -
  from assms(1) obtain m where m: "length ip = Suc m"
    by (cases ip) simp_all
  have "tryInt (Suc m) (ip @ CHR ''.'' # fp) = Some (ip, fp)"
    using assms m matchDot_point [of fp] by simp
  then show ?thesis
    using assms(2) m by (simp add: matchInt_def takeWhile_digits_point)
qed

lemma matchInt_point: "matchInt (CHR ''.'' # fp) = None"
  by (simp add: matchInt_def not_isDigit_point)

lemma matchZeros_canonical:
  assumes "ip \<noteq> []" "list_all isDigit ip" "ip = ''0'' \<or> hd ip \<noteq> CHR ''0''"
    "fp \<noteq> []" "list_all isDigit fp"
  shows "matchZeros (ip @ CHR ''.'' # fp) = Some (ip, fp)"
proof (cases "ip = ''0''")
  case True
  have "matchInt (''0'' @ CHR ''.'' # fp) = Some (''0'', fp)"
    using assms(4,5) by (intro matchInt_canonical) (simp_all add: isDigit_zero)
  then show ?thesis
    using True by (simp add: matchZeros_def matchInt_point)
next
  case False
  with assms(1,3) obtain c cs where ip: "ip = c # cs" and c: "c \<noteq> CHR ''0''"
    by (cases ip) auto
  then have "takeWhile (\<lambda>c. c = CHR ''0'') (ip @ CHR ''.'' # fp) = []"
    by simp
  then show ?thesis
    using assms by (simp add: matchZeros_def matchInt_canonical)
qed

lemma decimalRegex_canonical:
  assumes "canonicalDecimal sg ip fp"
  shows "decimalRegex (sg @ ip @ ''.'' @ fp) = Some (sg, ip, fp)"
proof -
  from assms have mz: "matchZeros (ip @ CHR ''.'' # fp) = Some (ip, fp)"
    by (intro matchZeros_canonical) (simp_all add: canonicalDecimal_def)
  from assms obtain c cs where ip: "ip = c # cs" and c: "isDigit c"
    by (cases ip) (auto simp: canonicalDecimal_def)
  from c have cs: "c \<noteq> CHR ''+''" "c \<noteq> CHR ''-''"
    by (auto simp: isDigit_def)
  from assms consider "sg = []" | "sg = ''-''"
    by (auto simp: canonicalDecimal_def)
  then show ?thesis
  proof cases
    case 1
    with mz ip cs show ?thesis
      by (simp add: decimalRegex_def)
  next
    case 2
    with mz show ?thesis
      by (simp add: decimalRegex_def)
  qed
qed

section \<open>The grouping loop of the Decimal encoder\<close>

lemma slice_group:
  assumes "4 * k < length D"
  shows "slice D (- int (4 * k) - 4) (if 4 * k = 0 then None else Some (- int (4 * k)))
         = groupStr D k"
proof -
  let ?len = "int (length D)"
  have lo: "nat (max (?len + (- int (4 * k) - 4)) 0) = length D - 4 * k - 4"
    by simp
  have hi: "(case (if 4 * k = 0 then None else Some (- int (4 * k))) of
               None \<Rightarrow> ?len
             | Some e \<Rightarrow> if e < 0 then max (?len + e) 0 else min e ?len)
            = int (length D - 4 * k)"
    using assms by (cases "k = 0") simp_all
  have "slice D (- int (4 * k) - 4) (if 4 * k = 0 then None else Some (- int (4 * k)))
        = take (nat (int (length D - 4 * k) - max (?len + (- int (4 * k) - 4)) 0))
            (drop (length D - 4 * k - 4) D)"
    unfolding slice_def Let_def hi using lo by simp
  also have "nat (int (length D - 4 * k) - max (?len + (- int (4 * k) - 4)) 0)
        = (length D - 4 * k) - (length D - 4 * k - 4)"
    by simp
  finally show ?thesis
    by (simp add: groupStr_def drop_take)
qed

lemma encodeStep_stepV:
  "4 * k < length D \<Longrightarrow> encodeStep D st (4 * k) = stepV st (parseInt (groupStr D k))"
  using slice_group [of k D]
  by (simp add: encodeStep_def stepV_def Let_def)

lemma encodeLoop_stepV:
  "encodeLoop D
     = foldl stepV ([], 0) (map (\<lambda>k. parseInt (groupStr D k)) [0 ..< (length D + 3) div 4])"
proof -
  have "\<And>st. foldl (encodeStep D) st (map (\<lambda>k. 4 * k) ks)
      = foldl stepV st (map (\<lambda>k. parseInt (groupStr D k)) ks)"
    if "\<forall>k \<in> set ks. 4 * k < length D" for ks
    using that by (induction ks) (simp_all add: encodeStep_stepV)
  moreover have "\<forall>k \<in> set [0 ..< (length D + 3) div 4]. 4 * k < length D"
    by auto
  ultimately show ?thesis
    by (simp add: encodeLoop_def)
qed

lemma stepV_loopState: "stepV (loopState vs) v = loopState (vs @ [v])"
proof (cases "dropWhile (\<lambda>v. v = 0) vs = []")
  case True
  then have z: "\<forall>x \<in> set vs. x = 0"
    by (simp add: dropWhile_eq_Nil_conv)
  then have eq: "dropWhile (\<lambda>v. v = 0) (vs @ [v]) = dropWhile (\<lambda>v. v = 0) [v]"
    by (simp add: dropWhile_append)
  have a: "loopState vs = ([], 0)"
    unfolding loopState_def True by simp
  have b: "loopState (vs @ [v]) = (if v = 0 then ([], 0) else ([v], 1))"
    unfolding loopState_def eq by simp
  show ?thesis
    unfolding a b by (simp add: stepV_def)
next
  case False
  then have nz: "\<not> (\<forall>x \<in> set vs. x = 0)"
    by (simp add: dropWhile_eq_Nil_conv)
  then have app: "dropWhile (\<lambda>v. v = 0) (vs @ [v]) = dropWhile (\<lambda>v. v = 0) vs @ [v]"
    by (auto simp: dropWhile_append)
  from False have hd: "hd (dropWhile (\<lambda>v. v = 0) vs) \<noteq> 0"
    using hd_dropWhile [of "\<lambda>v. v = 0" vs] by simp
  from False hd app show ?thesis
    by (simp add: stepV_def loopState_def)
qed

lemma foldl_stepV: "foldl stepV (loopState pre) vs = loopState (pre @ vs)"
  by (induction vs arbitrary: pre) (simp_all add: stepV_loopState)

lemma encodeLoop_loopState:
  "encodeLoop D = loopState (map (\<lambda>k. parseInt (groupStr D k)) [0 ..< (length D + 3) div 4])"
proof -
  have "loopState [] = ([], 0)"
    by (simp add: loopState_def)
  then show ?thesis
    using foldl_stepV [of "[]"] by (simp add: encodeLoop_stepV)
qed

lemma groupStr_drop:
  assumes "length D = r + 4 * n" and "k < n"
  shows "groupStr (drop r D) k = groupStr D k"
proof -
  have "take (4 * n - 4 * k) (drop r D) = drop r (take (length D - 4 * k) D)"
    using assms by (simp add: drop_take)
  then have "groupStr (drop r D) k = drop (4 * n - 4 * k - 4) (drop r (take (length D - 4 * k) D))"
    using assms by (simp add: groupStr_def)
  also have "\<dots> = drop (length D - 4 * k - 4) (take (length D - 4 * k) D)"
    using assms by (simp add: add.commute)
  finally show ?thesis
    by (simp add: groupStr_def)
qed

lemma groups_concat:
  assumes "list_all isDigit D" and "(length D + 3) div 4 = n"
  shows "concat (map (\<lambda>k. pad4 (parseInt (groupStr D k))) (rev [0 ..< n]))
         = replicate (4 * n - length D) CHR ''0'' @ D"
  using assms
proof (induction n arbitrary: D)
  case 0
  then have "length D = 0" by linarith
  then show ?case by simp
next
  case (Suc n)
  define r where "r = length D - 4 * n"
  from Suc.prems(2) have "4 * n < length D" "length D \<le> 4 * n + 4"
    by linarith+
  then have r: "0 < r" "r \<le> 4" "length D = r + 4 * n"
    unfolding r_def by simp_all
  let ?D' = "drop r D"
  have len': "length ?D' = 4 * n"
    using r by simp
  have dig': "list_all isDigit ?D'"
    using Suc.prems(1) by (auto simp: list_all_iff dest: in_set_dropD)
  have ih: "concat (map (\<lambda>k. pad4 (parseInt (groupStr ?D' k))) (rev [0 ..< n])) = ?D'"
    using Suc.IH [of ?D'] dig' len' by simp
  have same: "map (\<lambda>k. pad4 (parseInt (groupStr D k))) (rev [0 ..< n])
      = map (\<lambda>k. pad4 (parseInt (groupStr ?D' k))) (rev [0 ..< n])"
    using r(3) by (intro map_cong) (simp_all add: groupStr_drop)
  have top: "groupStr D n = take r D"
    using r by (simp add: groupStr_def)
  have digt: "list_all isDigit (take r D)"
    using Suc.prems(1) by (auto simp: list_all_iff dest: in_set_takeD)
  have padt: "pad4 (parseInt (groupStr D n)) = replicate (4 - r) CHR ''0'' @ take r D"
    using top digt r pad4_parseInt [of "take r D"] by simp
  have pre: "4 * Suc n - length D = 4 - r"
    using r by simp
  have "concat (map (\<lambda>k. pad4 (parseInt (groupStr D k))) (rev [0 ..< Suc n]))
      = pad4 (parseInt (groupStr D n))
        @ concat (map (\<lambda>k. pad4 (parseInt (groupStr D k))) (rev [0 ..< n]))"
    by simp
  also have "\<dots> = (replicate (4 - r) CHR ''0'' @ take r D) @ drop r D"
    unfolding same ih padt ..
  also have "\<dots> = replicate (4 * Suc n - length D) CHR ''0'' @ D"
    unfolding pre by simp
  finally show ?case .
qed

section \<open>Reading back the fields written\<close>

lemma readUInt16_be16: "v < 65536 \<Longrightarrow> readUInt16 (be16 v @ rest) = Inr (v, rest)"
  by (simp add: be16_def)

lemma readInt16_be16:
  assumes "- 32768 \<le> w" and "w \<le> 32767"
  shows "readInt16 (be16 (nat (w mod 65536)) @ rest) = Inr (w, rest)"
proof -
  have lt: "nat (w mod 65536) < 65536"
    by simp
  have v: "(if nat (w mod 65536) \<ge> 32768 then int (nat (w mod 65536)) - 65536
            else int (nat (w mod 65536))) = w"
  proof (cases "w < 0")
    case True
    have "(w + 65536) mod 65536 = w + 65536"
      using assms True by (intro mod_pos_pos_trivial) simp_all
    then have "w mod 65536 = w + 65536"
      by simp
    then show ?thesis
      using assms True by simp
  next
    case False
    then have "w mod 65536 = w"
      using assms by (intro mod_pos_pos_trivial) simp_all
    then show ?thesis
      using assms False by simp
  qed
  show ?thesis
    unfolding readInt16_def readUInt16_be16 [OF lt] using v by simp
qed

lemma writeGroups_ok:
  "\<forall>g \<in> set gs. g < 65536 \<Longrightarrow> writeGroups gs = Inr (concat (map be16 gs))"
  by (induction gs) (simp_all add: writeUInt16_def)

lemma readGroups_be16:
  "\<forall>g \<in> set gs. g < 65536 \<Longrightarrow>
     readGroups (length gs) (concat (map be16 gs) @ rest) acc
       = Inr (acc @ concat (map pad4 gs), rest)"
proof (induction gs arbitrary: acc)
  case Nil
  show ?case by simp
next
  case (Cons g gs)
  then have g: "g < 65536" and gs: "\<forall>g \<in> set gs. g < 65536"
    by simp_all
  have "readUInt16 (be16 g @ concat (map be16 gs) @ rest) = Inr (g, concat (map be16 gs) @ rest)"
    using g by (rule readUInt16_be16)
  then show ?case
    using Cons.IH [OF gs] by (simp add: pad4_def)
qed

lemma writeNumeric_ok:
  assumes "0 \<le> n" "n \<le> 4294967295" "nd \<le> 65535" "- 32768 \<le> w" "w \<le> 32767"
    "sg \<le> 65535" "ds \<le> 65535" "\<forall>g \<in> set gs. g < 65536"
  shows "writeNumeric n (int nd) True w (int sg) (int ds) gs
         = Inr (be32 (nat n) @ numericPayload nd w sg ds gs)"
  using assms
  by (simp add: writeNumeric_def writeUInt32_def writeUInt16_def writeInt16_def
      writeGroups_ok numericPayload_def)

lemma decode_numericPayload:
  assumes "length gs \<le> 65535" "- 32768 \<le> w" "w \<le> 32767"
    "sg = NUMERIC_POS \<or> sg = NUMERIC_NEG" "ds \<le> 65535" "\<forall>g \<in> set gs. g < 65536"
  shows "DecimalCodec_decode (numericPayload (length gs) w sg ds gs)
         = Inr (renderDecimal (sg = NUMERIC_NEG) w ds gs, [])"
proof -
  have sgb: "sg < 65536"
    using assms(4) by (auto simp: NUMERIC_POS_def NUMERIC_NEG_def)
  have r1: "readUInt16 (numericPayload (length gs) w sg ds gs)
      = Inr (length gs, be16 (nat (w mod 65536)) @ be16 sg @ be16 ds @ concat (map be16 gs))"
    unfolding numericPayload_def using assms(1) by (intro readUInt16_be16) simp
  have r2: "readInt16 (be16 (nat (w mod 65536)) @ be16 sg @ be16 ds @ concat (map be16 gs))
      = Inr (w, be16 sg @ be16 ds @ concat (map be16 gs))"
    using assms(2,3) by (rule readInt16_be16)
  have r3: "readUInt16 (be16 sg @ be16 ds @ concat (map be16 gs))
      = Inr (sg, be16 ds @ concat (map be16 gs))"
    using sgb by (rule readUInt16_be16)
  have r4: "readUInt16 (be16 ds @ concat (map be16 gs)) = Inr (ds, concat (map be16 gs))"
    using assms(5) by (intro readUInt16_be16) simp
  have r5: "readGroups (length gs) (concat (map be16 gs)) acc
      = Inr (acc @ concat (map pad4 gs), [])" for acc
    using readGroups_be16 [OF assms(6), of "[]" acc] by simp
  show ?thesis
    unfolding DecimalCodec_decode_def r1 andThen_Inr prod.case r2 r3 r4
    using assms(4) by (auto simp: r5 renderDecimal_def Let_def)
qed

section \<open>Slices, padding and group values\<close>

lemma slice_take: "slice S 0 (Some (int n)) = take n S"
  by (simp add: slice_def Let_def min_def)

lemma slice_front:
  "0 < n \<Longrightarrow> n \<le> length T \<Longrightarrow> slice T 0 (Some (- int n)) = take (length T - n) T"
  by (simp add: slice_def Let_def nat_diff_distrib')

lemma slice_back:
  "0 < n \<Longrightarrow> n \<le> length T \<Longrightarrow> slice T (- int n) None = drop (length T - n) T"
  by (simp add: slice_def Let_def nat_diff_distrib')

lemma pad_or_take:
  assumes "S @ replicate k c = U @ V"
  shows "(if length S < length U then padEnd S (length U) c
          else slice S 0 (Some (int (length U)))) = U"
proof (cases "length S < length U")
  case True
  have "length S + k = length U + length V"
    using arg_cong [OF assms, of length] by simp
  with True have k: "length U - length S \<le> k"
    by simp
  have "U = take (length U) (S @ replicate k c)"
    using assms by simp
  also have "\<dots> = S @ replicate (length U - length S) c"
    using True k by (simp add: min_def)
  finally show ?thesis
    using True by (simp add: padEnd_def)
next
  case False
  have "U = take (length U) (S @ replicate k c)"
    using assms by simp
  also have "\<dots> = take (length U) S"
    using False by simp
  finally show ?thesis
    using False by (simp add: slice_take)
qed

lemma dropWhile_eq_decomp:
  "xs = replicate (length xs - length (dropWhile (\<lambda>v. v = a) xs)) a @ dropWhile (\<lambda>v. v = a) xs"
proof -
  let ?P = "\<lambda>v. v = a"
  have "length (takeWhile ?P xs) = length xs - length (dropWhile ?P xs)"
    using length_takeWhile_dropWhile [of ?P xs] by simp
  then have "takeWhile ?P xs = replicate (length xs - length (dropWhile ?P xs)) a"
    using takeWhile_eq_replicate [of a xs] by simp
  then have "takeWhile ?P xs @ dropWhile ?P xs
      = replicate (length xs - length (dropWhile ?P xs)) a @ dropWhile ?P xs"
    by simp
  then show ?thesis
    by simp
qed

lemma dropWhile_rev_decomp:
  "xs = rev (dropWhile (\<lambda>v. v = a) (rev xs))
        @ replicate (length xs - length (dropWhile (\<lambda>v. v = a) (rev xs))) a"
proof -
  have "rev xs = replicate (length (rev xs) - length (dropWhile (\<lambda>v. v = a) (rev xs))) a
                 @ dropWhile (\<lambda>v. v = a) (rev xs)"
    by (rule dropWhile_eq_decomp)
  then have "rev (rev xs) = rev (replicate (length xs - length (dropWhile (\<lambda>v. v = a) (rev xs))) a
                 @ dropWhile (\<lambda>v. v = a) (rev xs))"
    by simp
  then show ?thesis
    by simp
qed

lemma replicate_4: "replicate 4 c = [c, c, c, c]"
  by (simp add: numeral_eq_Suc)

lemma concat_pad4_zeros: "concat (map pad4 (replicate a 0)) = replicate (4 * a) CHR ''0''"
proof (induction a)
  case 0
  show ?case by simp
next
  case (Suc a)
  have "replicate (4 * Suc a) CHR ''0'' = replicate 4 CHR ''0'' @ replicate (4 * a) CHR ''0''"
    by (simp flip: replicate_add)
  with Suc show ?case
    by (simp add: pad4_zero replicate_4)
qed

lemma parseInt_bound: "list_all isDigit s \<Longrightarrow> parseInt s < 10 ^ length s"
proof (induction s rule: rev_induct)
  case Nil
  show ?case by (simp add: parseInt_Nil)
next
  case (snoc c s)
  then have d: "list_all isDigit s" "isDigit c" by simp_all
  with snoc.IH have "parseInt s < 10 ^ length s" by simp
  moreover have "digitVal c < 10" using d by (simp add: digitVal_less)
  ultimately have "10 * parseInt s + digitVal c < 10 * 10 ^ length s"
    by linarith
  then show ?case
    using d by (simp add: parseInt_snoc)
qed

lemma groupStr_digits: "list_all isDigit D \<Longrightarrow> list_all isDigit (groupStr D k)"
  by (auto simp: groupStr_def list_all_iff dest!: in_set_dropD in_set_takeD)

lemma length_groupStr: "length (groupStr D k) \<le> 4"
  by (simp add: groupStr_def)

lemma groupVal_bound: "list_all isDigit D \<Longrightarrow> parseInt (groupStr D k) < 10000"
proof -
  assume "list_all isDigit D"
  then have "parseInt (groupStr D k) < 10 ^ length (groupStr D k)"
    by (intro parseInt_bound groupStr_digits)
  also have "(10::nat) ^ length (groupStr D k) \<le> 10 ^ 4"
    using length_groupStr [of D k] by (intro power_increasing) simp_all
  finally show ?thesis by simp
qed

lemma encode_unfold:
  assumes "decimalRegex x = Some (sg, ip, fp)"
    and "encodeLoop (ip @ padEnd fp ((length fp + 3) div 4 * 4) CHR ''0'') = (digits, lnz)"
  shows "DecimalCodec_encode x =
     writeNumeric
       (8 + int (length (if lnz \<noteq> length digits then slice digits 0 (Some (int lnz)) else digits)) * 2)
       (int (length (if lnz \<noteq> length digits then slice digits 0 (Some (int lnz)) else digits)))
       True
       (if lnz \<noteq> length digits then int lnz - int (length digits) else (int (length ip) - 1) div 4)
       (int (if sg = ''-'' then NUMERIC_NEG else NUMERIC_POS))
       (int (length fp))
       (rev (if lnz \<noteq> length digits then slice digits 0 (Some (int lnz)) else digits))"
  using assms by (simp add: DecimalCodec_encode_def Let_def)

section \<open>Decimal codec: round trip of canonical strings\<close>

lemma stripLeadingZeros_zeros:
  "stripLeadingZeros (replicate n CHR ''0'' @ s) = stripLeadingZeros s"
  by (induction n) (simp_all add: stripLeadingZeros_def)

lemma concat_replicate_pad4:
  "concat (replicate a (pad4 0)) = replicate (4 * a) CHR ''0''"
  using concat_pad4_zeros [of a] by simp

lemma canonical_int_part:
  assumes "ip \<noteq> []" "ip = ''0'' \<or> hd ip \<noteq> CHR ''0''"
  shows "orElse (stripLeadingZeros ip) ''0'' = ip"
proof (cases "ip = ''0''")
  case True
  then show ?thesis by (simp add: orElse_def stripLeadingZeros_def)
next
  case False
  with assms obtain c cs where "ip = c # cs" "c \<noteq> CHR ''0''"
    by (cases ip) auto
  then show ?thesis by (simp add: orElse_def stripLeadingZeros_def)
qed

lemma decimal_encode_canonical:
  assumes c: "canonicalDecimal sg ip fp"
  shows "\<exists>E w. DecimalCodec_encode (sg @ ip @ ''.'' @ fp)
            = Inr (be32 (8 + 2 * length E)
                   @ numericPayload (length E) w
                       (if sg = ''-'' then NUMERIC_NEG else NUMERIC_POS) (length fp) E)
        \<and> length E \<le> 65535 \<and> - 32768 \<le> w \<and> w \<le> 32767 \<and> (\<forall>g \<in> set E. g < 65536)
        \<and> renderDecimal (sg = ''-'') w (length fp) E = sg @ ip @ ''.'' @ fp"
proof -
  define F where "F = (length fp + 3) div 4"
  define D where "D = ip @ padEnd fp (F * 4) CHR ''0''"
  define I where "I = (length ip + 3) div 4"
  define m where "m = (length D + 3) div 4"
  define vs where "vs = map (\<lambda>k. parseInt (groupStr D k)) [0 ..< m]"
  define digits where "digits = dropWhile (\<lambda>v. v = 0) vs"
  define E where "E = dropWhile (\<lambda>v. v = 0) (rev digits)"
  define a where "a = length digits - length E"
  define b where "b = length vs - length digits"
  define w where "w = (if length E \<noteq> length digits then int (length E) - int (length digits)
                       else (int (length ip) - 1) div 4)"
  define ZI where "ZI = replicate (4 * I - length ip) CHR ''0''"
  define ZF where "ZF = replicate (4 * F - length fp) CHR ''0''"
  define cE where "cE = concat (map pad4 E)"
  let ?sign = "if sg = ''-'' then NUMERIC_NEG else NUMERIC_POS"

  from c have ip: "ip \<noteq> []" "list_all isDigit ip" "ip = ''0'' \<or> hd ip \<noteq> CHR ''0''"
    and fp: "fp \<noteq> []" "list_all isDigit fp"
    and bnd: "length ip \<le> 131072" "length fp \<le> 65535"
    and sg: "sg = [] \<or> sg = ''-''"
    by (simp_all add: canonicalDecimal_def)
  have lip: "0 < length ip" and lfp: "0 < length fp"
    using ip(1) fp(1) by simp_all
  have F4: "length fp \<le> 4 * F" "F \<le> 16384"
    using bnd(2) unfolding F_def by linarith+
  have I4: "length ip \<le> 4 * I" "4 * I \<le> length ip + 3" "0 < I" "I \<le> 32768"
    using bnd(1) lip unfolding I_def by linarith+
  have Dapp: "D = ip @ fp @ ZF"
    by (simp add: D_def padEnd_def ZF_def mult.commute)
  have lenD: "length D = length ip + 4 * F"
    using F4 by (simp add: Dapp ZF_def)
  have m: "m = I + F"
    unfolding m_def lenD I_def by linarith
  have digD: "list_all isDigit D"
    using ip(2) fp(2) by (auto simp: Dapp ZF_def list_all_iff isDigit_zero)
  have lenvs: "length vs = m"
    by (simp add: vs_def)

  \<comment> \<open>what the grouping loop returns\<close>
  have loop: "encodeLoop D = (digits, length E)"
    by (simp add: encodeLoop_loopState loopState_def vs_def m_def digits_def E_def)
  have lenE: "length E \<le> length digits"
    unfolding E_def using length_dropWhile_le [of "\<lambda>v. v = 0" "rev digits"] by simp
  have lendg: "length digits \<le> m"
    unfolding digits_def using length_dropWhile_le [of "\<lambda>v. v = 0" vs] lenvs by simp
  have revd: "rev digits = replicate a 0 @ E"
    unfolding a_def E_def using dropWhile_eq_decomp [of "rev digits" 0] by simp
  have revdg: "rev (if length E \<noteq> length digits
                    then slice digits 0 (Some (int (length E))) else digits) = E"
  proof (cases "length E = length digits")
    case True
    then have "a = 0" by (simp add: a_def)
    with revd True show ?thesis by simp
  next
    case False
    have "rev (take (length E) digits) = drop a (rev digits)"
      by (simp add: rev_take a_def)
    also have "\<dots> = E"
      by (simp add: revd)
    finally show ?thesis
      using False by (simp add: slice_take)
  qed
  have lendg': "length (if length E \<noteq> length digits
                    then slice digits 0 (Some (int (length E))) else digits) = length E"
    using arg_cong [OF revdg, of length] by simp
  have regex: "decimalRegex (sg @ ip @ ''.'' @ fp) = Some (sg, ip, fp)"
    using c by (rule decimalRegex_canonical)
  have enc: "DecimalCodec_encode (sg @ ip @ ''.'' @ fp)
      = writeNumeric (8 + int (length E) * 2) (int (length E)) True w (int ?sign)
          (int (length fp)) E"
    using encode_unfold [OF regex, of digits "length E"] loop
    unfolding D_def F_def revdg lendg' w_def by simp

  \<comment> \<open>the groups and the padded digit string\<close>
  have vals: "rev vs = replicate a 0 @ E @ replicate b 0"
  proof -
    have "rev vs = rev digits @ replicate b 0"
      using dropWhile_rev_decomp [of "rev vs" 0] by (simp add: digits_def b_def)
    then show ?thesis by (simp add: revd)
  qed
  have "concat (map pad4 (rev vs)) = replicate (4 * m - length D) CHR ''0'' @ D"
    using groups_concat [OF digD, of m] by (simp add: vs_def rev_map m_def comp_def)
  moreover have "4 * m - length D = 4 * I - length ip"
    using m lenD by simp
  ultimately have P: "replicate (4 * a) CHR ''0'' @ cE @ replicate (4 * b) CHR ''0''
      = ZI @ ip @ fp @ ZF"
    by (simp add: vals concat_replicate_pad4 cE_def ZI_def Dapp)

  \<comment> \<open>the header fields are in range\<close>
  have setE: "\<forall>g \<in> set E. g < 10000"
  proof
    fix g assume "g \<in> set E"
    then have "g \<in> set (rev digits)"
      unfolding E_def by (rule set_dropWhileD)
    then have "g \<in> set vs"
      unfolding digits_def by (auto dest: set_dropWhileD)
    then show "g < 10000"
      using groupVal_bound [OF digD] by (auto simp: vs_def)
  qed
  then have setE': "\<forall>g \<in> set E. g < 65536"
    by auto
  have nd: "length E \<le> 65535"
    using lenE lendg m I4 F4 by linarith

  \<comment> \<open>what the decoder renders\<close>
  have main: "- 32768 \<le> w \<and> w \<le> 32767
      \<and> renderDecimal (sg = ''-'') w (length fp) E = sg @ ip @ ''.'' @ fp"
  proof (cases "a = 0")
    case True
    then have eq: "length E = length digits"
      using lenE by (simp add: a_def)
    have w: "w = int I - 1"
      using eq lip unfolding w_def I_def by simp
    have wr: "- 32768 \<le> w" "w \<le> 32767" "0 \<le> w"
      using w I4 by simp_all
    have dl: "length fp + nat ((w + 1) * 4) = length (ZI @ ip @ fp)"
      using w I4 by (simp add: ZI_def)
    have "cE @ replicate (4 * b) CHR ''0'' = (ZI @ ip @ fp) @ ZF"
      using P True by simp
    then have T: "(if length cE < length (ZI @ ip @ fp)
                   then padEnd cE (length (ZI @ ip @ fp)) CHR ''0''
                   else slice cE 0 (Some (int (length (ZI @ ip @ fp))))) = ZI @ ip @ fp"
      by (rule pad_or_take)
    have sfront: "slice (ZI @ ip @ fp) 0 (Some (- int (length fp))) = ZI @ ip"
      using lfp by (subst slice_front) simp_all
    have sback: "slice (ZI @ ip @ fp) (- int (length fp)) None = fp"
      using lfp by (subst slice_back) simp_all
    have "renderDecimal (sg = ''-'') w (length fp) E
        = (if sg = ''-'' then ''-'' else '''') @ orElse (stripLeadingZeros (ZI @ ip)) ''0''
          @ ''.'' @ fp"
    proof -
      have ws: "(w < 0) = False" "(0 \<le> w) = True"
        using wr by simp_all
      show ?thesis
        unfolding renderDecimal_def Let_def
        by (simp only: ws dl T sfront sback cE_def [symmetric] if_True if_False append_Nil)
    qed
    also have "\<dots> = sg @ ip @ ''.'' @ fp"
      using sg ip by (auto simp: ZI_def stripLeadingZeros_zeros canonical_int_part)
    finally show ?thesis
      using wr by simp
  next
    case False
    then have apos: "0 < a" by simp
    then have ne: "length E \<noteq> length digits"
      by (simp add: a_def)
    have w: "w = - int a"
      using ne lenE by (simp add: w_def a_def)
    \<comment> \<open>the most significant group is zero, so the integer part is \<open>0\<close>\<close>
    have j: "length ZI < 4 * a"
      using I4 apos by (simp add: ZI_def)
    have "(replicate (4 * a) CHR ''0'' @ cE @ replicate (4 * b) CHR ''0'') ! length ZI = CHR ''0''"
      using j by (simp add: nth_append)
    moreover have "(ZI @ ip @ fp @ ZF) ! length ZI = hd ip"
      using ip(1) by (simp add: nth_append hd_conv_nth)
    ultimately have "hd ip = CHR ''0''"
      using P by simp
    with ip(3) have ip0: "ip = ''0''"
      by simp
    then have I1: "I = 1"
      by (simp add: I_def)
    have ZI: "ZI = ''000''"
      by (simp add: ZI_def I1 ip0 numeral_eq_Suc)
    have "replicate (4 * a) CHR ''0'' = replicate 4 CHR ''0'' @ replicate (4 * (a - 1)) CHR ''0''"
      using apos by (simp flip: replicate_add)
    with P have "''0000'' @ replicate (4 * (a - 1)) CHR ''0'' @ cE @ replicate (4 * b) CHR ''0''
        = ''0000'' @ fp @ ZF"
      by (simp add: ZI ip0 replicate_4)
    then have S: "(replicate (4 * (a - 1)) CHR ''0'' @ cE) @ replicate (4 * b) CHR ''0'' = fp @ ZF"
      by simp
    have ale: "a \<le> 16385"
      using lenE lendg m I1 F4 by (simp add: a_def)
    have wr: "- 32768 \<le> w" "w \<le> 32767" "w < 0"
      using w ale apos by simp_all
    have pre: "nat ((w + 1) * - 4) = 4 * (a - 1)"
      using w apos by (simp add: nat_diff_distrib' algebra_simps)
    have T: "(if length (replicate (4 * (a - 1)) CHR ''0'' @ cE) < length fp
              then padEnd (replicate (4 * (a - 1)) CHR ''0'' @ cE) (length fp) CHR ''0''
              else slice (replicate (4 * (a - 1)) CHR ''0'' @ cE) 0 (Some (int (length fp)))) = fp"
      using S by (rule pad_or_take)
    have sfront: "slice fp 0 (Some (- int (length fp))) = []"
      using lfp by (subst slice_front) simp_all
    have sback: "slice fp (- int (length fp)) None = fp"
      using lfp by (subst slice_back) simp_all
    have "renderDecimal (sg = ''-'') w (length fp) E
        = (if sg = ''-'' then ''-'' else '''') @ orElse (stripLeadingZeros []) ''0'' @ ''.'' @ fp"
    proof -
      have ws: "(w < 0) = True" "(0 \<le> w) = False"
        using wr by simp_all
      show ?thesis
        unfolding renderDecimal_def Let_def
        by (simp only: ws pre T sfront sback cE_def [symmetric] if_True if_False add_0_right)
    qed
    also have "\<dots> = sg @ ip @ ''.'' @ fp"
      using sg by (auto simp: ip0 stripLeadingZeros_def orElse_def)
    finally show ?thesis
      using wr by simp
  qed

  have sgn: "?sign \<le> 65535"
    by (simp add: NUMERIC_NEG_def NUMERIC_POS_def)
  have "writeNumeric (8 + int (length E) * 2) (int (length E)) True w (int ?sign)
          (int (length fp)) E
        = Inr (be32 (nat (8 + int (length E) * 2))
               @ numericPayload (length E) w ?sign (length fp) E)"
    using nd main bnd(2) setE' sgn by (intro writeNumeric_ok) simp_all
  moreover have "nat (8 + int (length E) * 2) = 8 + 2 * length E"
    by simp
  ultimately have "DecimalCodec_encode (sg @ ip @ ''.'' @ fp)
        = Inr (be32 (8 + 2 * length E) @ numericPayload (length E) w ?sign (length fp) E)"
    using enc by simp
  with nd main setE' show ?thesis
    by blast
qed

lemma decimal_roundtrip_canonical:
  assumes "canonicalDecimal sg ip fp"
  shows "andThen (payloadOf (DecimalCodec_encode (sg @ ip @ ''.'' @ fp))) DecimalCodec_decode
         = Inr (sg @ ip @ ''.'' @ fp, [])"
proof -
  let ?sign = "if sg = ''-'' then NUMERIC_NEG else NUMERIC_POS"
  from decimal_encode_canonical [OF assms] obtain E w where
    enc: "DecimalCodec_encode (sg @ ip @ ''.'' @ fp)
            = Inr (be32 (8 + 2 * length E) @ numericPayload (length E) w ?sign (length fp) E)"
    and rng: "length E \<le> 65535" "- 32768 \<le> w" "w \<le> 32767" "\<forall>g \<in> set E. g < 65536"
    and ren: "renderDecimal (sg = ''-'') w (length fp) E = sg @ ip @ ''.'' @ fp"
    by blast
  from assms have ds: "length fp \<le> 65535"
    by (simp add: canonicalDecimal_def)
  have pay: "payloadOf (DecimalCodec_encode (sg @ ip @ ''.'' @ fp))
      = Inr (numericPayload (length E) w ?sign (length fp) E)"
    unfolding enc payloadOf_def by (simp add: be32_def)
  have "DecimalCodec_decode (numericPayload (length E) w ?sign (length fp) E)
      = Inr (renderDecimal (?sign = NUMERIC_NEG) w (length fp) E, [])"
    using rng ds by (intro decode_numericPayload) simp_all
  moreover have "(?sign = NUMERIC_NEG) = (sg = ''-'')"
    by (simp add: NUMERIC_NEG_def NUMERIC_POS_def)
  ultimately show ?thesis
    unfolding pay by (simp add: ren)
qed

section \<open>Digit groups of a big integer\<close>

lemma toString_digits: "list_all isDigit (toString n)"
proof (induction n rule: toString.induct)
  case (1 n)
  show ?case
  proof (cases "n < 10")
    case True
    then show ?thesis
      by (simp add: toString_digit isDigit_digitChar)
  next
    case False
    with 1 have "list_all isDigit (toString (n div 10))" by simp
    moreover have "isDigit (digitChar (n mod 10))"
      by (simp add: isDigit_digitChar)
    ultimately show ?thesis
      using False by (subst toString.simps) simp
  qed
qed

lemma toString_not_Nil: "toString n \<noteq> []"
  by (subst toString.simps) simp

lemma parseInt_toString: "parseInt (toString n) = n"
proof (induction n rule: toString.induct)
  case (1 n)
  show ?case
  proof (cases "n < 10")
    case True
    then show ?thesis
      using parseInt_snoc [of "[]" "digitChar n"]
      by (simp add: toString_digit isDigit_digitChar digitVal_digitChar parseInt_Nil)
  next
    case False
    with 1 have ih: "parseInt (toString (n div 10)) = n div 10" by simp
    have "parseInt (toString (n div 10) @ [digitChar (n mod 10)])
        = 10 * parseInt (toString (n div 10)) + digitVal (digitChar (n mod 10))"
      by (intro parseInt_snoc toString_digits isDigit_digitChar) simp
    then show ?thesis
      using False ih by (subst toString.simps) (simp add: digitVal_digitChar)
  qed
qed

lemma parseInt_append:
  "list_all isDigit s \<Longrightarrow> list_all isDigit t \<Longrightarrow>
     parseInt (s @ t) = parseInt s * 10 ^ length t + parseInt t"
proof (induction t rule: rev_induct)
  case Nil
  show ?case by (simp add: parseInt_Nil)
next
  case (snoc c t)
  then have d: "list_all isDigit t" "isDigit c" "list_all isDigit (s @ t)"
    by simp_all
  have "parseInt ((s @ t) @ [c]) = 10 * parseInt (s @ t) + digitVal c"
    using d by (intro parseInt_snoc)
  moreover have "parseInt (t @ [c]) = 10 * parseInt t + digitVal c"
    using d by (intro parseInt_snoc)
  ultimately show ?case
    using snoc.IH [OF snoc.prems(1) d(1)] by (simp add: algebra_simps)
qed

lemma length_toString: "0 < k \<Longrightarrow> n < 10 ^ k \<Longrightarrow> length (toString n) \<le> k"
proof (induction n arbitrary: k rule: toString.induct)
  case (1 n)
  show ?case
  proof (cases "n < 10")
    case True
    then show ?thesis
      using 1(2) by (simp add: toString_digit)
  next
    case False
    with 1(3) have k: "1 < k"
      by (cases "k = 1") (use 1(2) in simp_all)
    then obtain j where j: "k = Suc j" "0 < j"
      by (cases k) simp_all
    have "n div 10 < 10 ^ j"
      using 1(3) j by (simp add: less_mult_imp_div_less mult.commute)
    then have "length (toString (n div 10)) \<le> j"
      using 1(1) [OF False j(2)] by simp
    then show ?thesis
      using False j by (subst toString.simps) simp
  qed
qed

lemma pad4_facts:
  assumes "g < 10000"
  shows "length (pad4 g) = 4" and "list_all isDigit (pad4 g)" and "parseInt (pad4 g) = g"
proof -
  have len: "length (toString g) \<le> 4"
    using assms by (intro length_toString) simp_all
  then show "length (pad4 g) = 4"
    by (simp add: pad4_def padStart_def)
  have z: "list_all isDigit (replicate (4 - length (toString g)) CHR ''0'')"
    by (simp add: list_all_iff isDigit_zero)
  then show "list_all isDigit (pad4 g)"
    by (simp add: pad4_def padStart_def toString_digits)
  have "parseInt (replicate (4 - length (toString g)) CHR ''0'') = 0"
    using z by (simp add: parseInt_eq_0)
  then show "parseInt (pad4 g) = g"
    using z by (simp add: pad4_def padStart_def parseInt_append toString_digits parseInt_toString)
qed

lemma parseInt_groups:
  assumes "list_all isDigit s" and "\<forall>g \<in> set gs. g < 10000"
  shows "list_all isDigit (s @ concat (map pad4 gs))
       \<and> parseInt (s @ concat (map pad4 gs)) = foldl (\<lambda>a g. a * 10000 + g) (parseInt s) gs"
  using assms
proof (induction gs arbitrary: s)
  case Nil
  then show ?case by simp
next
  case (Cons g gs)
  then have g: "g < 10000" and gs: "\<forall>g \<in> set gs. g < 10000"
    by simp_all
  have d: "list_all isDigit (s @ pad4 g)"
    using Cons.prems(1) pad4_facts(2) [OF g] by simp
  have "parseInt (s @ pad4 g) = parseInt s * 10000 + g"
    using Cons.prems(1) pad4_facts [OF g] by (simp add: parseInt_append)
  then show ?case
    using Cons.IH [OF d gs] by simp
qed

lemma bigintDigits_nonpos: "u \<le> 0 \<Longrightarrow> bigintDigits u = []"
  by (subst bigintDigits.simps) simp

lemma bigintDigits_pos:
  "0 < u \<Longrightarrow> bigintDigits u = (u mod 10000) # bigintDigits (u div 10000)"
  by (subst bigintDigits.simps) simp

lemma bigintDigits_range: "\<forall>d \<in> set (bigintDigits u). 0 \<le> d \<and> d < 10000"
proof (induction u rule: bigintDigits.induct)
  case (1 u)
  show ?case
  proof (cases "u \<le> 0")
    case True
    then show ?thesis by (simp add: bigintDigits_nonpos)
  next
    case False
    then have ih: "\<forall>d \<in> set (bigintDigits (u div 10000)). 0 \<le> d \<and> d < 10000"
      using 1 by blast
    have eq: "bigintDigits u = (u mod 10000) # bigintDigits (u div 10000)"
      using False by (intro bigintDigits_pos) simp
    have "0 \<le> u mod 10000 \<and> u mod 10000 < 10000"
      by simp
    with ih show ?thesis
      unfolding eq by simp
  qed
qed

lemma bigintDigits_value:
  "0 \<le> u \<Longrightarrow> foldr (\<lambda>d a. nat d + 10000 * a) (bigintDigits u) 0 = nat u"
proof (induction u rule: bigintDigits.induct)
  case (1 u)
  show ?case
  proof (cases "u \<le> 0")
    case True
    with 1(2) show ?thesis by (subst bigintDigits.simps) simp
  next
    case False
    then have "0 \<le> u div 10000" by simp
    with 1(1) False
    have ih: "foldr (\<lambda>d a. nat d + 10000 * a) (bigintDigits (u div 10000)) 0 = nat (u div 10000)"
      by simp
    have "int (nat (u mod 10000) + 10000 * nat (u div 10000)) = u"
      using False by simp
    then have "nat (u mod 10000) + 10000 * nat (u div 10000) = nat u"
      by linarith
    with ih False show ?thesis
      by (subst bigintDigits.simps) simp
  qed
qed

lemma bigintDigits_length: "0 \<le> u \<Longrightarrow> u < 10000 ^ k \<Longrightarrow> length (bigintDigits u) \<le> k"
proof (induction k arbitrary: u)
  case 0
  then have "u \<le> 0" by simp
  then show ?case by (subst bigintDigits.simps) simp
next
  case (Suc k)
  show ?case
  proof (cases "u \<le> 0")
    case True
    then show ?thesis by (subst bigintDigits.simps) simp
  next
    case False
    have "10000 * (u div 10000) \<le> u"
      using False by simp
    moreover have "u < 10000 * 10000 ^ k"
      using Suc.prems(2) by simp
    ultimately have "u div 10000 < 10000 ^ k"
      by linarith
    moreover have "0 \<le> u div 10000"
      using False by simp
    ultimately have "length (bigintDigits (u div 10000)) \<le> k"
      by (intro Suc.IH)
    then show ?thesis
      using False by (subst bigintDigits.simps) simp
  qed
qed

lemma bigintDigits_not_Nil: "0 < u \<Longrightarrow> bigintDigits u \<noteq> []"
  by (subst bigintDigits.simps) simp

section \<open>Big-integer codec: round trip\<close>

lemma writeNumeric_unsigned_ok:
  assumes "0 \<le> n" "n \<le> 4294967295" "nd \<le> 65535" "0 \<le> w" "w \<le> 65535"
    "sg \<le> 65535" "ds \<le> 65535" "\<forall>g \<in> set gs. g < 65536"
  shows "writeNumeric n (int nd) False w (int sg) (int ds) gs
         = Inr (be32 (nat n) @ numericPayload nd w sg ds gs)"
proof -
  have "w mod 65536 = w"
    using assms(4,5) by (intro mod_pos_pos_trivial) simp_all
  then show ?thesis
    using assms
    by (simp add: writeNumeric_def writeUInt32_def writeUInt16_def writeGroups_ok
        numericPayload_def)
qed

lemma bigintLoop_groups:
  assumes "\<forall>g \<in> set gs. g < 65536" "0 < d" "i = int (length gs) - 1" "i \<le> weight"
    "d + length gs \<le> ndigits"
  shows "bigintLoop weight ndigits i d (concat (map be16 gs) @ rest) result
         = Inr (result @ concat (map pad4 gs), rest)"
  using assms
proof (induction gs arbitrary: i d result)
  case Nil
  then show ?case
    by (subst bigintLoop.simps) simp
next
  case (Cons g gs)
  then have g: "g < 65536" and gs: "\<forall>g \<in> set gs. g < 65536"
    by simp_all
  have rd: "readUInt16 (be16 g @ concat (map be16 gs) @ rest)
      = Inr (g, concat (map be16 gs) @ rest)"
    using g by (rule readUInt16_be16)
  have c: "0 \<le> i" "i \<le> weight" "d < ndigits" "0 < d"
    using Cons.prems by simp_all
  have "bigintLoop weight ndigits i d (be16 g @ concat (map be16 gs) @ rest) result
      = bigintLoop weight ndigits (i - 1) (d + 1) (concat (map be16 gs) @ rest)
          (result @ pad4 g)"
    by (subst bigintLoop.simps) (simp add: c rd pad4_def)
  also have "\<dots> = Inr ((result @ pad4 g) @ concat (map pad4 gs), rest)"
    using Cons.prems by (intro Cons.IH gs) simp_all
  finally show ?case
    by simp
qed

lemma bigintLoop_first:
  assumes "g < 65536" "\<forall>x \<in> set gs. x < 65536"
  shows "bigintLoop (int (length gs)) (Suc (length gs)) (int (length gs)) 0
           (be16 g @ concat (map be16 gs)) result
         = Inr (result @ toString g @ concat (map pad4 gs), [])"
proof -
  have rd: "readUInt16 (be16 g @ concat (map be16 gs)) = Inr (g, concat (map be16 gs))"
    using assms(1) by (rule readUInt16_be16)
  have "bigintLoop (int (length gs)) (Suc (length gs)) (int (length gs)) 0
          (be16 g @ concat (map be16 gs)) result
      = bigintLoop (int (length gs)) (Suc (length gs)) (int (length gs) - 1) (0 + 1)
          (concat (map be16 gs) @ []) (result @ toString g)"
    by (subst bigintLoop.simps) (simp add: rd)
  also have "\<dots> = Inr ((result @ toString g) @ concat (map pad4 gs), [])"
    using assms(2) by (intro bigintLoop_groups) simp_all
  finally show ?thesis
    by simp
qed

lemma decodeBigIntToString_payload:
  assumes "g < 65536" "\<forall>x \<in> set gs. x < 65536" "length gs < 32768"
    "sg = NUMERIC_POS \<or> sg = NUMERIC_NEG"
  shows "decodeBigIntToString (numericPayload (Suc (length gs)) (int (length gs)) sg 0 (g # gs))
         = Inr ((if sg = NUMERIC_NEG then ''-'' else '''') @ toString g @ concat (map pad4 gs), [])"
proof -
  let ?gs = "be16 g @ concat (map be16 gs)"
  have sgb: "sg < 65536"
    using assms(4) by (auto simp: NUMERIC_POS_def NUMERIC_NEG_def)
  have pl: "numericPayload (Suc (length gs)) (int (length gs)) sg 0 (g # gs)
      = be16 (Suc (length gs)) @ be16 (nat (int (length gs) mod 65536)) @ be16 sg @ be16 0 @ ?gs"
    by (simp add: numericPayload_def)
  have r1: "readUInt16 (be16 (Suc (length gs)) @ be16 (nat (int (length gs) mod 65536))
                @ be16 sg @ be16 0 @ ?gs)
      = Inr (Suc (length gs), be16 (nat (int (length gs) mod 65536)) @ be16 sg @ be16 0 @ ?gs)"
    using assms(3) by (intro readUInt16_be16) simp
  have r2: "readInt16 (be16 (nat (int (length gs) mod 65536)) @ be16 sg @ be16 0 @ ?gs)
      = Inr (int (length gs), be16 sg @ be16 0 @ ?gs)"
    using assms(3) by (intro readInt16_be16) simp_all
  have r3: "readUInt16 (be16 sg @ be16 0 @ ?gs) = Inr (sg, be16 0 @ ?gs)"
    using sgb by (rule readUInt16_be16)
  have r4: "readUInt16 (be16 0 @ ?gs) = Inr (0, ?gs)"
    by (intro readUInt16_be16) simp
  have lp: "bigintLoop (int (length gs)) (Suc (length gs)) (int (length gs)) 0 ?gs result
      = Inr (result @ toString g @ concat (map pad4 gs), [])" for result
    using assms(1,2) by (rule bigintLoop_first)
  from assms(4) show ?thesis
  proof
    assume p: "sg = NUMERIC_POS"
    then have n: "sg \<noteq> NUMERIC_NEG"
      by (simp add: NUMERIC_POS_def NUMERIC_NEG_def)
    show ?thesis
      unfolding pl decodeBigIntToString_def r1 andThen_Inr prod.case r2 r3 r4
      using p n by (simp add: Let_def lp)
  next
    assume n: "sg = NUMERIC_NEG"
    show ?thesis
      unfolding pl decodeBigIntToString_def r1 andThen_Inr prod.case r2 r3 r4
      using n by (simp add: Let_def lp)
  qed
qed

lemma groups_value:
  "foldl (\<lambda>a g. a * 10000 + g) 0 (map nat (rev ds)) = foldr (\<lambda>d a. nat d + 10000 * a) ds 0"
  by (induction ds) simp_all

lemma BigInt_digits:
  "s \<noteq> [] \<Longrightarrow> list_all isDigit s \<Longrightarrow> BigInt s = Inr (int (parseInt s))"
  by (simp add: BigInt_def)

lemma BigInt_minus:
  "s \<noteq> [] \<Longrightarrow> list_all isDigit s \<Longrightarrow> BigInt (CHR ''-'' # s) = Inr (- int (parseInt s))"
  by (simp add: BigInt_def isDigit_def)

lemma rendered_value:
  assumes "g < 10000" "\<forall>x \<in> set gs. x < 10000"
  shows "toString g @ concat (map pad4 gs) \<noteq> []"
    and "list_all isDigit (toString g @ concat (map pad4 gs))"
    and "parseInt (toString g @ concat (map pad4 gs)) = foldl (\<lambda>a g. a * 10000 + g) 0 (g # gs)"
proof -
  show "toString g @ concat (map pad4 gs) \<noteq> []"
    by (simp add: toString_not_Nil)
  show "list_all isDigit (toString g @ concat (map pad4 gs))"
    using parseInt_groups [OF toString_digits assms(2), of g] by blast
  have "parseInt (toString g @ concat (map pad4 gs))
      = foldl (\<lambda>a g. a * 10000 + g) (parseInt (toString g)) gs"
    using parseInt_groups [OF toString_digits assms(2), of g] by blast
  then show "parseInt (toString g @ concat (map pad4 gs)) = foldl (\<lambda>a g. a * 10000 + g) 0 (g # gs)"
    by (simp add: parseInt_toString)
qed

lemma bigint_roundtrip_nonzero:
  assumes "x \<noteq> 0" and "length (bigintDigits \<bar>x\<bar>) \<le> 32768"
  shows "andThen (payloadOf (BigIntCodec_encode x)) BigIntCodec_decode = Inr (x, [])"
proof -
  define u where "u = (if x < 0 then - x else x)"
  define ds where "ds = bigintDigits u"
  define sg where "sg = (if x < 0 then NUMERIC_NEG else NUMERIC_POS)"
  have u: "0 < u" "u = \<bar>x\<bar>"
    using assms(1) by (simp_all add: u_def)
  have len: "length ds \<le> 32768"
    using assms(2) by (simp add: ds_def u(2))
  have ne: "ds \<noteq> []"
    unfolding ds_def using u(1) by (rule bigintDigits_not_Nil)
  then obtain g gs where gs: "map nat (rev ds) = g # gs"
    by (cases "map nat (rev ds)") simp_all
  have lgs: "length ds = Suc (length gs)"
    using arg_cong [OF gs, of length] by simp
  have rng: "\<forall>x \<in> set (g # gs). x < 10000"
  proof
    fix y assume "y \<in> set (g # gs)"
    then have "y \<in> set (map nat (rev ds))"
      by (simp only: gs)
    then obtain d where "d \<in> set ds" "y = nat d"
      by auto
    then show "y < 10000"
      using bigintDigits_range [of u] by (auto simp: ds_def)
  qed
  then have g4: "g < 10000" and gs4: "\<forall>x \<in> set gs. x < 10000"
    by simp_all
  then have g16: "g < 65536" and gs16: "\<forall>x \<in> set gs. x < 65536"
    by auto
  have sgs: "sg = NUMERIC_POS \<or> sg = NUMERIC_NEG" "sg \<le> 65535"
    by (simp_all add: sg_def NUMERIC_POS_def NUMERIC_NEG_def)
  have "BigIntCodec_encode x
      = writeNumeric (8 + int (length ds) * 2) (int (length ds)) False (int (length ds) - 1)
          (int sg) 0 (map nat (rev ds))"
    using assms(1) by (simp add: BigIntCodec_encode_def Let_def u_def ds_def sg_def)
  also have "\<dots> = writeNumeric (8 + int (Suc (length gs)) * 2) (int (Suc (length gs))) False
          (int (length gs)) (int sg) (int 0) (g # gs)"
    unfolding gs lgs by simp
  also have "\<dots> = Inr (be32 (nat (8 + int (Suc (length gs)) * 2))
          @ numericPayload (Suc (length gs)) (int (length gs)) sg 0 (g # gs))"
    using len lgs sgs(2) g16 gs16 by (intro writeNumeric_unsigned_ok) simp_all
  finally have enc: "BigIntCodec_encode x = Inr (be32 (nat (8 + int (Suc (length gs)) * 2))
          @ numericPayload (Suc (length gs)) (int (length gs)) sg 0 (g # gs))" .
  have pay: "payloadOf (BigIntCodec_encode x)
      = Inr (numericPayload (Suc (length gs)) (int (length gs)) sg 0 (g # gs))"
    unfolding enc payloadOf_def by (simp add: be32_def)
  have str: "decodeBigIntToString (numericPayload (Suc (length gs)) (int (length gs)) sg 0 (g # gs))
      = Inr ((if sg = NUMERIC_NEG then ''-'' else '''') @ toString g @ concat (map pad4 gs), [])"
    using g16 gs16 len lgs sgs(1) by (intro decodeBigIntToString_payload) simp_all
  have "foldl (\<lambda>a g. a * 10000 + g) 0 (map nat (rev ds)) = nat u"
    using groups_value [of ds] bigintDigits_value [of u] u(1) by (simp add: ds_def)
  then have "foldl (\<lambda>a g. a * 10000 + g) 0 (g # gs) = nat u"
    by (simp only: gs)
  then have val: "int (parseInt (toString g @ concat (map pad4 gs))) = u"
    using u(1) rendered_value(3) [OF g4 gs4] by simp
  have big: "BigInt ((if sg = NUMERIC_NEG then ''-'' else '''') @ toString g @ concat (map pad4 gs))
      = Inr x"
  proof (cases "x < 0")
    case True
    have s: "(if sg = NUMERIC_NEG then ''-'' else '''') @ toString g @ concat (map pad4 gs)
        = CHR ''-'' # toString g @ concat (map pad4 gs)"
      using True by (simp add: sg_def)
    have "BigInt (CHR ''-'' # toString g @ concat (map pad4 gs))
        = Inr (- int (parseInt (toString g @ concat (map pad4 gs))))"
      using rendered_value(1,2) [OF g4 gs4] by (rule BigInt_minus)
    also have "\<dots> = Inr x"
      unfolding val u_def using True by simp
    finally show ?thesis
      unfolding s .
  next
    case False
    have s: "(if sg = NUMERIC_NEG then ''-'' else '''') @ toString g @ concat (map pad4 gs)
        = toString g @ concat (map pad4 gs)"
      using False by (simp add: sg_def NUMERIC_POS_def NUMERIC_NEG_def)
    have "BigInt (toString g @ concat (map pad4 gs))
        = Inr (int (parseInt (toString g @ concat (map pad4 gs))))"
      using rendered_value(1,2) [OF g4 gs4] by (rule BigInt_digits)
    also have "\<dots> = Inr x"
      unfolding val u_def using False by simp
    finally show ?thesis
      unfolding s .
  qed
  show ?thesis
    unfolding pay BigIntCodec_decode_def andThen_Inr str prod.case big ..
qed

lemma bigint_roundtrip_zero:
  "andThen (payloadOf (BigIntCodec_encode 0)) BigIntCodec_decode = Inr (0, [])"
  by code_simp

section \<open>The scale field written by the Decimal encoder\<close>

lemma writeGroups_Inr: "writeGroups gs = Inr b \<Longrightarrow> b = concat (map be16 gs)"
proof (induction gs arbitrary: b)
  case Nil
  then show ?case by simp
next
  case (Cons g gs)
  then show ?case
    by (auto simp: andThen_eq_Inr writeUInt16_def split: if_splits)
qed

lemma writeNumeric_signed_Inr:
  assumes "writeNumeric n nd True w sg ds gs = Inr bytes"
  shows "0 \<le> ds \<and> ds \<le> 65535
       \<and> drop 4 bytes = numericPayload (nat nd) w (nat sg) (nat ds) gs"
  using assms
  by (auto simp: writeNumeric_def andThen_eq_Inr writeUInt32_def writeUInt16_def writeInt16_def
      numericPayload_def be32_def dest!: writeGroups_Inr split: if_splits)

lemma decimal_encode_dscale:
  assumes "decimalRegex x = Some (sg, ip, fp)" and "DecimalCodec_encode x = Inr bytes"
  shows "length fp \<le> 65535
       \<and> (\<exists>ndigits weight sign groups.
            drop 4 bytes = numericPayload ndigits weight sign (length fp) groups)"
proof -
  obtain digits lnz where el:
    "encodeLoop (ip @ padEnd fp ((length fp + 3) div 4 * 4) CHR ''0'') = (digits, lnz)"
    by (cases "encodeLoop (ip @ padEnd fp ((length fp + 3) div 4 * 4) CHR ''0'')")
  from writeNumeric_signed_Inr [OF assms(2) [unfolded encode_unfold [OF assms(1) el]]]
  have "int (length fp) \<le> 65535" and
    "\<exists>ndigits weight sign groups.
            drop 4 bytes = numericPayload ndigits weight sign (nat (int (length fp))) groups"
    by blast+
  then show ?thesis
    by simp
qed

section \<open>Decimal codec: the four round-trip vectors and the scale field\<close>

text \<open>
  Claim C7. For each of the four strings \<open>0.00\<close>, \<open>123.4500\<close>, \<open>-0.001\<close> and
  \<open>99999999999999999999.1\<close>, decoding the payload that \<open>encode\<close> writes returns the
  string itself, trailing zeros of the fraction included. The payloads are the ones
  given: \<open>dscale\<close> is 2, 4, 3 and 1, the number of digits after the point, also for
  \<open>0.00\<close>, whose digit groups are all stripped. In general, whenever \<open>encode\<close> accepts a
  string and writes it, the \<open>dscale\<close> field of the payload holds the length of the
  fraction that the pattern captured.
\<close>

theorem decimal_roundtrip_vectors_keep_scale:
  "andThen (payloadOf (DecimalCodec_encode ''0.00'')) DecimalCodec_decode = Inr (''0.00'', [])
   \<and> andThen (payloadOf (DecimalCodec_encode ''123.4500'')) DecimalCodec_decode
        = Inr (''123.4500'', [])
   \<and> andThen (payloadOf (DecimalCodec_encode ''-0.001'')) DecimalCodec_decode
        = Inr (''-0.001'', [])
   \<and> andThen (payloadOf (DecimalCodec_encode ''99999999999999999999.1'')) DecimalCodec_decode
        = Inr (''99999999999999999999.1'', [])
   \<and> payloadOf (DecimalCodec_encode ''0.00'') = Inr (numericPayload 0 0 NUMERIC_POS 2 [])
   \<and> payloadOf (DecimalCodec_encode ''123.4500'')
        = Inr (numericPayload 2 0 NUMERIC_POS 4 [123, 4500])
   \<and> payloadOf (DecimalCodec_encode ''-0.001'') = Inr (numericPayload 1 (- 1) NUMERIC_NEG 3 [10])
   \<and> payloadOf (DecimalCodec_encode ''99999999999999999999.1'')
        = Inr (numericPayload 6 4 NUMERIC_POS 1 [9999, 9999, 9999, 9999, 9999, 1000])
   \<and> (decimalRegex x = Some (sg, ip, fp) \<and> DecimalCodec_encode x = Inr bytes
      \<longrightarrow> length fp \<le> 65535
        \<and> (\<exists>ndigits weight sign groups.
              payloadOf (Inr bytes) = Inr (numericPayload ndigits weight sign (length fp) groups)))"
proof -
  have r1: "andThen (payloadOf (DecimalCodec_encode ''0.00'')) DecimalCodec_decode
      = Inr (''0.00'', [])"
    by code_simp
  have r2: "andThen (payloadOf (DecimalCodec_encode ''123.4500'')) DecimalCodec_decode
      = Inr (''123.4500'', [])"
    by code_simp
  have r3: "andThen (payloadOf (DecimalCodec_encode ''-0.001'')) DecimalCodec_decode
      = Inr (''-0.001'', [])"
    by code_simp
  have r4: "andThen (payloadOf (DecimalCodec_encode ''99999999999999999999.1''))
        DecimalCodec_decode
      = Inr (''99999999999999999999.1'', [])"
    by code_simp
  have p1: "payloadOf (DecimalCodec_encode ''0.00'') = Inr (numericPayload 0 0 NUMERIC_POS 2 [])"
    by code_simp
  have p2: "payloadOf (DecimalCodec_encode ''123.4500'')
      = Inr (numericPayload 2 0 NUMERIC_POS 4 [123, 4500])"
    by code_simp
  have p3: "payloadOf (DecimalCodec_encode ''-0.001'')
      = Inr (numericPayload 1 (- 1) NUMERIC_NEG 3 [10])"
    by code_simp
  have p4: "payloadOf (DecimalCodec_encode ''99999999999999999999.1'')
      = Inr (numericPayload 6 4 NUMERIC_POS 1 [9999, 9999, 9999, 9999, 9999, 1000])"
    by code_simp
  have g: "decimalRegex x = Some (sg, ip, fp) \<and> DecimalCodec_encode x = Inr bytes
      \<longrightarrow> length fp \<le> 65535
        \<and> (\<exists>ndigits weight sign groups.
              payloadOf (Inr bytes) = Inr (numericPayload ndigits weight sign (length fp) groups))"
    using decimal_encode_dscale [of x sg ip fp bytes] by (simp add: payloadOf_def)
  from r1 r2 r3 r4 p1 p2 p3 p4 g show ?thesis
    by (intro conjI)
qed

theorem decimal_roundtrip_vectors_keep_scale_witness:
  "decimalRegex ''0.00'' = Some ('''', ''0'', ''00'')
   \<and> DecimalCodec_encode ''0.00'' = Inr [0, 0, 0, 8, 0, 0, 0, 0, 0, 0, 0, 2]
   \<and> length ''00'' \<le> 65535
   \<and> (\<exists>ndigits weight sign groups.
         payloadOf (Inr [0, 0, 0, 8, 0, 0, 0, 0, 0, 0, 0, 2])
           = Inr (numericPayload ndigits weight sign (length ''00'') groups))"
proof -
  have r: "decimalRegex ''0.00'' = Some ('''', ''0'', ''00'')"
    by code_simp
  have e: "DecimalCodec_encode ''0.00'' = Inr [0, 0, 0, 8, 0, 0, 0, 0, 0, 0, 0, 2]"
    by code_simp
  from decimal_roundtrip_vectors_keep_scale
      [where x = "''0.00''" and sg = "''''" and ip = "''0''" and fp = "''00''"
        and bytes = "[0, 0, 0, 8, 0, 0, 0, 0, 0, 0, 0, 2]"] r e
  have "length ''00'' \<le> 65535
      \<and> (\<exists>ndigits weight sign groups.
         payloadOf (Inr [0, 0, 0, 8, 0, 0, 0, 0, 0, 0, 0, 2])
           = Inr (numericPayload ndigits weight sign (length ''00'') groups))"
    by blast
  with r e show ?thesis
    by blast
qed

section \<open>Round trips of the two numeric codecs\<close>




end
